theory Spec2Isabelle
  imports Complex_Main "HOL-Library.Product_Lexorder"
begin

section \<open>Notebook 16: Expectation Maximization for two biased coins\<close>

text \<open>
  The notebook \<^verbatim>\<open>NB16_CXIII-EM_coin_toss.ipynb\<close> is a Python script over NumPy
  scalars and arrays. Its numbers are IEEE double precision floats. A float is embedded as
  the real number it stands for, or as one of the three special values of a NumPy float,
  which the script can produce by dividing by zero or by overflow; the sign of zero is not
  tracked. NumPy scalar arithmetic never raises on a zero divisor (it warns and returns
  \<open>nan\<close> or \<open>inf\<close>); arithmetic on a plain Python \<^verbatim>\<open>float\<close> does raise
  \<^verbatim>\<open>ZeroDivisionError\<close>. Both behaviours are written out.

  The arithmetic comes twice. The operations \<open>fl_add\<close>, \<open>fl_mul\<close> and \<open>fl_div\<close>
  below give the special values their IEEE 754 results and take the result of two finite
  operands exactly. They are used as they are where the script adds whole numbers and
  divides once (the estimate from complete data) and for the score of the table of
  restarts. In the E-M loop the result of every operation on finite operands is rounded
  by the machine; the operations \<open>fp_add\<close>, \<open>fp_mul\<close>, \<open>fp_div\<close> and \<open>fp_pow\<close>
  further down take the rounding as a parameter, so that what is proved of the loop holds
  for every rounding, underflow to zero and overflow to infinity included.
\<close>

subsection \<open>NumPy floats\<close>

datatype npfloat = Fin real | PInf | NInf | NaN

fun fl_neg :: "npfloat \<Rightarrow> npfloat" where
  "fl_neg (Fin x) = Fin (- x)"
| "fl_neg PInf = NInf"
| "fl_neg NInf = PInf"
| "fl_neg NaN = NaN"

fun fl_add :: "npfloat \<Rightarrow> npfloat \<Rightarrow> npfloat" where
  "fl_add NaN y = NaN"
| "fl_add x NaN = NaN"
| "fl_add (Fin x) (Fin y) = Fin (x + y)"
| "fl_add PInf NInf = NaN"
| "fl_add NInf PInf = NaN"
| "fl_add PInf y = PInf"
| "fl_add x PInf = PInf"
| "fl_add NInf y = NInf"
| "fl_add x NInf = NInf"

definition fl_sub :: "npfloat \<Rightarrow> npfloat \<Rightarrow> npfloat" where
  "fl_sub x y = fl_add x (fl_neg y)"

fun fl_mul :: "npfloat \<Rightarrow> npfloat \<Rightarrow> npfloat" where
  "fl_mul NaN y = NaN"
| "fl_mul x NaN = NaN"
| "fl_mul (Fin x) (Fin y) = Fin (x * y)"
| "fl_mul (Fin x) PInf = (if x = 0 then NaN else if 0 < x then PInf else NInf)"
| "fl_mul (Fin x) NInf = (if x = 0 then NaN else if 0 < x then NInf else PInf)"
| "fl_mul PInf (Fin y) = (if y = 0 then NaN else if 0 < y then PInf else NInf)"
| "fl_mul NInf (Fin y) = (if y = 0 then NaN else if 0 < y then NInf else PInf)"
| "fl_mul PInf PInf = PInf"
| "fl_mul PInf NInf = NInf"
| "fl_mul NInf PInf = NInf"
| "fl_mul NInf NInf = PInf"

text \<open>
  Division of NumPy scalars: a zero divisor gives \<open>nan\<close> for \<open>0/0\<close> and a signed
  infinity otherwise; no exception is raised.
\<close>

fun fl_div :: "npfloat \<Rightarrow> npfloat \<Rightarrow> npfloat" where
  "fl_div NaN y = NaN"
| "fl_div x NaN = NaN"
| "fl_div (Fin x) (Fin y) =
     (if y = 0 then (if x = 0 then NaN else if 0 < x then PInf else NInf)
      else Fin (x / y))"
| "fl_div (Fin x) PInf = Fin 0"
| "fl_div (Fin x) NInf = Fin 0"
| "fl_div PInf (Fin y) = (if 0 \<le> y then PInf else NInf)"
| "fl_div NInf (Fin y) = (if 0 \<le> y then NInf else PInf)"
| "fl_div PInf PInf = NaN"
| "fl_div PInf NInf = NaN"
| "fl_div NInf PInf = NaN"
| "fl_div NInf NInf = NaN"

fun fl_abs :: "npfloat \<Rightarrow> npfloat" where
  "fl_abs (Fin x) = Fin \<bar>x\<bar>"
| "fl_abs PInf = PInf"
| "fl_abs NInf = PInf"
| "fl_abs NaN = NaN"

text \<open>The comparison \<open>x > y\<close>: false whenever an operand is \<open>nan\<close>.\<close>

fun fl_gt :: "npfloat \<Rightarrow> npfloat \<Rightarrow> bool" where
  "fl_gt NaN y = False"
| "fl_gt x NaN = False"
| "fl_gt (Fin x) (Fin y) = (y < x)"
| "fl_gt PInf PInf = False"
| "fl_gt PInf y = True"
| "fl_gt x PInf = False"
| "fl_gt NInf y = False"
| "fl_gt x NInf = True"

definition fl_le :: "npfloat \<Rightarrow> npfloat \<Rightarrow> bool" where
  "fl_le x y = (x \<noteq> NaN \<and> y \<noteq> NaN \<and> \<not> fl_gt x y)"

subsection \<open>Python errors and Python numbers\<close>

text \<open>
  The script has no \<^verbatim>\<open>try\<close> and no \<^verbatim>\<open>raise\<close>: the only failures are the
  exceptions the interpreter raises. An uncaught exception ends the cell; the result of a
  failing run is the exception together with the state of the variables when it was raised.
\<close>

datatype py_error = ZeroDivisionError | IndexError | TypeError | OverflowError

text \<open>
  \<open>MLE_A = 0.0\<close> is a plain Python float; adding an entry of a NumPy array to it gives a
  NumPy float. The two differ in what a zero divisor does.
\<close>

datatype pynum = PyFloat real | NpFloat npfloat

fun py_add_np :: "pynum \<Rightarrow> npfloat \<Rightarrow> pynum" where
  "py_add_np (PyFloat x) y = NpFloat (fl_add (Fin x) y)"
| "py_add_np (NpFloat x) y = NpFloat (fl_add x y)"

text \<open>Division by a Python integer: \<open>x / d\<close>.\<close>

fun py_truediv_int :: "pynum \<Rightarrow> int \<Rightarrow> py_error + pynum" where
  "py_truediv_int (PyFloat x) d =
     (if d = 0 then Inl ZeroDivisionError else Inr (PyFloat (x / real_of_int d)))"
| "py_truediv_int (NpFloat x) d = Inr (NpFloat (fl_div x (Fin (real_of_int d))))"

subsection \<open>The arithmetic of the machine\<close>

text \<open>
  What the E-M loop needs of the machine and of the libraries, and what this development
  leaves open, is collected in a record:
  \<^item> \<open>rnd m z\<close>: the double nearest to the real number \<open>z\<close>, the exponent range being
    unbounded above. It is the result of \<open>+\<close>, \<open>-\<close>, \<open>*\<close> and \<open>/\<close> on finite
    operands whose exact result is \<open>z\<close>; for a tiny \<open>z\<close> it may be 0 (underflow);
  \<^item> \<open>powf m x e\<close>: the result of the C library's \<open>pow\<close> for a finite base other than
    0 and 1 and a whole exponent other than 0. It may be 0 (underflow) or infinite;
  \<^item> \<open>np_sum_flat m xs\<close>: \<open>np.sum\<close> of the entries \<open>xs\<close> of an array, whose order of
    summation is NumPy's own.

  \<open>float_limit\<close> is the least magnitude that rounds to infinity: the largest double is
  \<open>2^1024 - 2^971\<close>, and round-to-nearest sends everything from \<open>2^1024 - 2^970\<close> on
  to infinity.
\<close>

definition float_limit :: nat where
  "float_limit = 2 ^ 1024 - 2 ^ 970"

record machine =
  rnd :: "real \<Rightarrow> real"
  powf :: "real \<Rightarrow> int \<Rightarrow> npfloat"
  np_sum_flat :: "npfloat list \<Rightarrow> npfloat"

text \<open>The float for an exact result \<open>z\<close>. A result that is exactly 0 is the float 0.\<close>

definition fl :: "machine \<Rightarrow> real \<Rightarrow> npfloat" where
  "fl m z =
     (if z = 0 then Fin 0
      else if real float_limit \<le> z then PInf
      else if z \<le> - real float_limit then NInf
      else Fin (rnd m z))"

text \<open>
  The four operations. Adding the float 0 to a float, or multiplying a float by the
  float 1, gives that float; on the special values the operations are the ones of the
  previous subsection.
\<close>

fun fp_add :: "machine \<Rightarrow> npfloat \<Rightarrow> npfloat \<Rightarrow> npfloat" where
  "fp_add m (Fin x) (Fin y) = (if x = 0 then Fin y else if y = 0 then Fin x else fl m (x + y))"
| "fp_add m x y = fl_add x y"

definition fp_sub :: "machine \<Rightarrow> npfloat \<Rightarrow> npfloat \<Rightarrow> npfloat" where
  "fp_sub m x y = fp_add m x (fl_neg y)"

fun fp_mul :: "machine \<Rightarrow> npfloat \<Rightarrow> npfloat \<Rightarrow> npfloat" where
  "fp_mul m (Fin x) (Fin y) = (if x = 1 then Fin y else if y = 1 then Fin x else fl m (x * y))"
| "fp_mul m x y = fl_mul x y"

fun fp_div :: "machine \<Rightarrow> npfloat \<Rightarrow> npfloat \<Rightarrow> npfloat" where
  "fp_div m (Fin x) (Fin y) =
     (if y = 0 then (if x = 0 then NaN else if 0 < x then PInf else NInf)
      else fl m (x / y))"
| "fp_div m x y = fl_div x y"

text \<open>
  The power \<open>x ** e\<close> for an exponent that is a float holding a whole number, as the head
  and tail counts are. The cases C99 fixes are written out: \<open>x ** 0\<close> is 1 for every
  \<open>x\<close>, \<open>nan\<close> included; \<open>0 ** e\<close> is 0 for \<open>e > 0\<close> and infinite for \<open>e < 0\<close>;
  \<open>1 ** e\<close> is 1.
\<close>

definition fp_pow :: "machine \<Rightarrow> npfloat \<Rightarrow> int \<Rightarrow> npfloat" where
  "fp_pow m x e =
     (if e = 0 then Fin 1
      else case x of
        Fin r \<Rightarrow> (if r = 0 then (if 0 < e then Fin 0 else PInf)
                  else if r = 1 then Fin 1
                  else powf m r e)
      | PInf \<Rightarrow> (if 0 < e then PInf else Fin 0)
      | NInf \<Rightarrow> (if 0 < e then (if even e then PInf else NInf) else Fin 0)
      | NaN \<Rightarrow> NaN)"

text \<open>
  A Python integer that meets a NumPy float in an operation is converted to a float
  first. The conversion is exact below \<open>2^53\<close>, rounds above, and raises
  \<^verbatim>\<open>OverflowError: int too large to convert to float\<close> from \<open>float_limit\<close> on.
\<close>

definition int_to_float :: "machine \<Rightarrow> nat \<Rightarrow> py_error + npfloat" where
  "int_to_float m c =
     (if float_limit \<le> c then Inl OverflowError
      else Inr (Fin (if c < 2 ^ 53 then real c else rnd m (real c))))"

subsection \<open>The likelihood of one experiment\<close>

text \<open>
  \<^verbatim>\<open>def compute_likelihood(obs, n, pheads):
    likelihood = comb(n, obs, exact=True)*(pheads**obs)*(1.0-pheads)**(n-obs)
    return likelihood\<close>

  \<open>obs\<close> is an entry of \<open>head_counts\<close>: a float that holds a natural number.
  \<open>comb(n, obs, exact=True)\<close> is the binomial coefficient as a Python integer of any size
  (0 when \<open>obs > n\<close>); \<open>pheads\<close> is a NumPy float. The product is evaluated from the left:
  the integer is converted for the first multiplication, and \<open>n\<close> for the subtraction
  \<open>n - obs\<close>, whose result is taken exactly, as it is for counts below \<open>2^53\<close>.
\<close>

definition compute_likelihood :: "machine \<Rightarrow> nat \<Rightarrow> nat \<Rightarrow> npfloat \<Rightarrow> py_error + npfloat" where
  "compute_likelihood m obs n pheads =
     (case int_to_float m (n choose obs) of
        Inl e \<Rightarrow> Inl e
      | Inr c \<Rightarrow>
          (case int_to_float m n of
             Inl e \<Rightarrow> Inl e
           | Inr nf \<Rightarrow>
               Inr (fp_mul m (fp_mul m c (fp_pow m pheads (int obs)))
                             (fp_pow m (fp_sub m (Fin 1) pheads) (int n - int obs)))))"

subsection \<open>Generating the experiments and the estimate from complete data\<close>

text \<open>
  The random draws are the input: experiment \<open>i\<close> draws \<open>np.random.randint(2)\<close> (the coin)
  and \<open>np.random.binomial(num_coin_toss, theta, 1)\<close> (the number of heads). \<open>num_exp\<close> is
  the number of draws.

  \<^verbatim>\<open>for i in np.arange(num_exp):
    if np.random.randint(2) == 0: # coin A is selected
        head_counts[i] = np.random.binomial(num_coin_toss , theta_A_true, 1)
        MLE_A = MLE_A +  head_counts[i]
    else: # coin B is selected
        head_counts[i] = np.random.binomial(num_coin_toss , theta_B_true, 1)
        coin_choice[i] = 1
        MLE_B = MLE_B +  head_counts[i]\<close>
\<close>

record gen_state =
  coin_choice :: "nat list"
  drawn_head_counts :: "nat list"
  MLE_A :: pynum
  MLE_B :: pynum

definition one_experiment :: "nat \<Rightarrow> nat \<times> nat \<Rightarrow> gen_state \<Rightarrow> gen_state" where
  "one_experiment i d s =
     (if fst d = 0
      then s\<lparr>drawn_head_counts := (drawn_head_counts s)[i := snd d],
             MLE_A := py_add_np (MLE_A s) (Fin (real (snd d)))\<rparr>
      else s\<lparr>drawn_head_counts := (drawn_head_counts s)[i := snd d],
             coin_choice := (coin_choice s)[i := 1],
             MLE_B := py_add_np (MLE_B s) (Fin (real (snd d)))\<rparr>)"

fun experiments_from :: "nat \<Rightarrow> (nat \<times> nat) list \<Rightarrow> gen_state \<Rightarrow> gen_state" where
  "experiments_from i [] s = s"
| "experiments_from i (d # ds) s = experiments_from (Suc i) ds (one_experiment i d s)"

definition count_nonzero :: "nat list \<Rightarrow> nat" where
  "count_nonzero xs = length (filter (\<lambda>x. x \<noteq> 0) xs)"

definition generate :: "(nat \<times> nat) list \<Rightarrow> gen_state" where
  "generate draws =
     experiments_from 0 draws
       \<lparr>coin_choice = replicate (length draws) 0,
        drawn_head_counts = replicate (length draws) 0,
        MLE_A = PyFloat 0, MLE_B = PyFloat 0\<rparr>"

text \<open>
  \<^verbatim>\<open>MLE_A = MLE_A / ((num_exp - np.count_nonzero(coin_choice))*num_coin_toss)
MLE_B = MLE_B / (np.count_nonzero(coin_choice)*num_coin_toss)\<close>

  \<open>np.count_nonzero\<close> returns a Python integer, so both divisors are Python integers.
\<close>

definition ComputeMLE :: "(nat \<times> nat) list \<Rightarrow> nat \<Rightarrow> py_error + (pynum \<times> pynum)" where
  "ComputeMLE draws num_toss =
     (let s = generate draws;
          num_exp = length draws;
          c = count_nonzero (coin_choice s)
      in case py_truediv_int (MLE_A s) ((int num_exp - int c) * int num_toss) of
           Inl e \<Rightarrow> Inl e
         | Inr a \<Rightarrow>
             (case py_truediv_int (MLE_B s) (int c * int num_toss) of
                Inl e \<Rightarrow> Inl e
              | Inr b \<Rightarrow> Inr (a, b)))"

subsection \<open>The E-M loop\<close>

text \<open>
  The variables of the loop. \<open>head_counts\<close> and \<open>tail_counts\<close> are float arrays that hold
  whole numbers (\<open>tail_counts = num_coin_toss - head_counts\<close> may be negative when a count
  exceeds the number of tosses). \<open>expectation_A\<close> is an array of \<open>num_exp\<close> rows and two
  columns. \<open>theta_A\<close> and \<open>theta_B\<close> are unbound until the first M step. \<open>epsilon\<close> is
  a float.
\<close>

type_synonym row = "npfloat \<times> npfloat"

record em_state =
  num_coin_toss :: nat
  num_exp :: nat
  head_counts :: "nat list"
  tail_counts :: "int list"
  pA_heads :: "npfloat list"
  pB_heads :: "npfloat list"
  epsilon :: npfloat
  j :: nat
  improvement :: npfloat
  expectation_A :: "row list"
  expectation_B :: "row list"
  theta_A :: "npfloat option"
  theta_B :: "npfloat option"

definition zero_row :: row where
  "zero_row = (Fin 0, Fin 0)"

definition row_add :: "machine \<Rightarrow> row \<Rightarrow> row \<Rightarrow> row" where
  "row_add m r q = (fp_add m (fst r) (fst q), fp_add m (snd r) (snd q))"

text \<open>\<open>w * np.array([eH, eT])\<close>\<close>

definition scale_row :: "machine \<Rightarrow> npfloat \<Rightarrow> nat \<Rightarrow> int \<Rightarrow> row" where
  "scale_row m w eH eT = (fp_mul m w (Fin (real eH)), fp_mul m w (Fin (real_of_int eT)))"

text \<open>
  The E step, a \<open>for\<close> loop over the experiments:

  \<^verbatim>\<open>for i in np.arange(min(len(head_counts),len(tail_counts))):
    eH = head_counts[i]
    eT = tail_counts[i]
    lA = compute_likelihood(eH, num_coin_toss, pA_heads[j])
    lB = compute_likelihood(eH, num_coin_toss, pB_heads[j])
    weightA = lA / (lA + lB)
    weightB = lB / (lA + lB)
    expectation_A[i] = weightA*np.array([eH, eT])
    expectation_B[i] = weightB*np.array([eH, eT])\<close>

  \<open>e_step m s is ex\<close> runs it over the indices \<open>is\<close> on the two expectation arrays
  \<open>ex\<close>. It stops at the first exception, with the arrays as they are then: reading
  \<open>pA_heads[j]\<close> or \<open>pB_heads[j]\<close> out of range, the \<open>OverflowError\<close> of
  \<open>compute_likelihood\<close>, or writing row \<open>i\<close> of an array that has fewer rows.
\<close>

fun e_step ::
  "machine \<Rightarrow> em_state \<Rightarrow> nat list \<Rightarrow> row list \<times> row list
     \<Rightarrow> (py_error \<times> row list \<times> row list) + (row list \<times> row list)" where
  "e_step m s [] ex = Inr ex"
| "e_step m s (i # is) ex =
     (let eH = head_counts s ! i;
          eT = tail_counts s ! i
      in if \<not> j s < length (pA_heads s) then Inl (IndexError, ex)
         else case compute_likelihood m eH (num_coin_toss s) (pA_heads s ! j s) of
           Inl e \<Rightarrow> Inl (e, ex)
         | Inr lA \<Rightarrow>
             if \<not> j s < length (pB_heads s) then Inl (IndexError, ex)
             else case compute_likelihood m eH (num_coin_toss s) (pB_heads s ! j s) of
               Inl e \<Rightarrow> Inl (e, ex)
             | Inr lB \<Rightarrow>
                 let weightA = fp_div m lA (fp_add m lA lB);
                     weightB = fp_div m lB (fp_add m lA lB)
                 in if \<not> i < length (fst ex) then Inl (IndexError, ex)
                    else
                      let exA = (fst ex)[i := scale_row m weightA eH eT]
                      in if \<not> i < length (snd ex) then Inl (IndexError, (exA, snd ex))
                         else e_step m s is (exA, (snd ex)[i := scale_row m weightB eH eT]))"

text \<open>
  The sums of the M step. The builtin \<open>sum(a)\<close> adds the rows of \<open>a\<close> to the integer 0,
  from the first to the last; on an array with no row it is the integer 0 itself, which
  cannot be indexed. \<open>np.sum(a, axis = 0)\<close> adds the rows in their order as well;
  \<open>np.sum(a)\<close> adds all entries in NumPy's order, and is 0 for an array with no entry.
\<close>

definition py_sum_rows :: "machine \<Rightarrow> row list \<Rightarrow> row" where
  "py_sum_rows m rows = foldl (row_add m) zero_row rows"

definition py_sum_row :: "machine \<Rightarrow> row \<Rightarrow> npfloat" where
  "py_sum_row m r = fp_add m (fp_add m (Fin 0) (fst r)) (snd r)"

definition np_sum_axis0 :: "machine \<Rightarrow> row list \<Rightarrow> row" where
  "np_sum_axis0 m rows = foldl (row_add m) zero_row rows"

definition np_sum :: "machine \<Rightarrow> row list \<Rightarrow> npfloat" where
  "np_sum m rows =
     (if rows = [] then Fin 0 else np_sum_flat m (concat (map (\<lambda>r. [fst r, snd r]) rows)))"

text \<open>
  The builtin \<open>max\<close> of a two-element array keeps the first element unless the second
  compares greater.
\<close>

definition py_max2 :: "npfloat \<Rightarrow> npfloat \<Rightarrow> npfloat" where
  "py_max2 x y = (if fl_gt y x then y else x)"

text \<open>\<open>sum(expectation_A)[0] / sum(sum(expectation_A))\<close>\<close>

definition m_step :: "machine \<Rightarrow> row list \<Rightarrow> npfloat" where
  "m_step m rows = fp_div m (fst (py_sum_rows m rows)) (py_sum_row m (py_sum_rows m rows))"

text \<open>
  One pass through the body of the \<open>while\<close> loop:

  \<^verbatim>\<open>expectation_A = np.zeros((num_exp,2), dtype=float)
expectation_B = np.zeros((num_exp,2), dtype=float)
for i in ...
theta_A = np.sum(expectation_A, axis = 0)[0] / np.sum(expectation_A)
theta_B = np.sum(expectation_B, axis = 0)[0] / np.sum(expectation_B)
pA_heads[j+1] = sum(expectation_A)[0] / sum(sum(expectation_A));
pB_heads[j+1] = sum(expectation_B)[0] / sum(sum(expectation_B));
improvement = max( abs(np.array([pA_heads[j+1],pB_heads[j+1]])
                       - np.array([pA_heads[j],pB_heads[j]]) ))
j = j+1\<close>

  The result is the state after the pass, or the exception and the state in which it was
  raised:
  \<^item> an exception of the E step;
  \<^item> \<open>TypeError\<close> on indexing \<open>sum(expectation_A)\<close> when the array has no row;
  \<^item> \<open>IndexError\<close> on writing \<open>pA_heads[j+1]\<close> or \<open>pB_heads[j+1]\<close> out of range.
\<close>

definition em_body :: "machine \<Rightarrow> em_state \<Rightarrow> (py_error \<times> em_state) + em_state" where
  "em_body m s =
     (let n_rows = min (length (head_counts s)) (length (tail_counts s));
          zeros = replicate (num_exp s) zero_row
      in case e_step m s [0..<n_rows] (zeros, zeros) of
           Inl (e, ex) \<Rightarrow> Inl (e, s\<lparr>expectation_A := fst ex, expectation_B := snd ex\<rparr>)
         | Inr ex \<Rightarrow>
             let s1 = s\<lparr>expectation_A := fst ex, expectation_B := snd ex\<rparr>;
                 s2 = s1\<lparr>theta_A := Some (fp_div m (fst (np_sum_axis0 m (expectation_A s1)))
                                                     (np_sum m (expectation_A s1))),
                          theta_B := Some (fp_div m (fst (np_sum_axis0 m (expectation_B s1)))
                                                     (np_sum m (expectation_B s1)))\<rparr>
             in if expectation_A s2 = [] then Inl (TypeError, s2)
                else if \<not> j s + 1 < length (pA_heads s) then Inl (IndexError, s2)
                else
                  let s3 = s2\<lparr>pA_heads := (pA_heads s2)[j s + 1 := m_step m (expectation_A s2)]\<rparr>
                  in if \<not> j s + 1 < length (pB_heads s) then Inl (IndexError, s3)
                     else
                       let s4 = s3\<lparr>pB_heads := (pB_heads s3)[j s + 1 := m_step m (expectation_B s3)]\<rparr>;
                           s5 = s4\<lparr>improvement :=
                                      py_max2 (fl_abs (fp_sub m (pA_heads s4 ! (j s + 1)) (pA_heads s4 ! j s)))
                                              (fl_abs (fp_sub m (pB_heads s4 ! (j s + 1)) (pB_heads s4 ! j s)))\<rparr>
                       in Inr (s5\<lparr>j := j s + 1\<rparr>))"

text \<open>\<^verbatim>\<open>while (improvement > epsilon): ...\<close>\<close>

function em_while :: "machine \<Rightarrow> em_state \<Rightarrow> (py_error \<times> em_state) + em_state" where
  "em_while m s =
     (if fl_gt (improvement s) (epsilon s)
      then (case em_body m s of Inl e \<Rightarrow> Inl e | Inr s' \<Rightarrow> em_while m s')
      else Inr s)"
  by pat_completeness auto
termination
  by (relation "measure (\<lambda>(m, s). length (pA_heads s) - j s)")
     (auto simp: em_body_def Let_def split: if_splits sum.splits prod.splits)

declare em_while.simps [simp del]

text \<open>
  The state before the loop: the experiments, \<open>pA_heads = np.zeros(100)\<close> with the initial
  guess at index 0, \<open>j = 0\<close> and \<open>improvement = float('inf')\<close>.
\<close>

definition em_init :: "nat list \<Rightarrow> nat \<Rightarrow> npfloat \<Rightarrow> npfloat \<Rightarrow> npfloat \<Rightarrow> em_state" where
  "em_init hs num_toss a0 b0 eps =
     \<lparr>num_coin_toss = num_toss, num_exp = length hs,
      head_counts = hs, tail_counts = map (\<lambda>h. int num_toss - int h) hs,
      pA_heads = (replicate 100 (Fin 0))[0 := a0],
      pB_heads = (replicate 100 (Fin 0))[0 := b0],
      epsilon = eps, j = 0, improvement = PInf,
      expectation_A = [], expectation_B = [],
      theta_A = None, theta_B = None\<rparr>"

definition RunEM ::
  "machine \<Rightarrow> nat list \<Rightarrow> nat \<Rightarrow> npfloat \<Rightarrow> npfloat \<Rightarrow> npfloat
     \<Rightarrow> (py_error \<times> em_state) + em_state" where
  "RunEM m hs num_toss a0 b0 eps = em_while m (em_init hs num_toss a0 b0 eps)"

text \<open>The trace of the run: the entries \<open>0..j\<close> of \<open>pA_heads\<close> and \<open>pB_heads\<close>.\<close>

definition trace :: "em_state \<Rightarrow> (npfloat \<times> npfloat) list" where
  "trace s = zip (take (j s + 1) (pA_heads s)) (take (j s + 1) (pB_heads s))"

subsection \<open>Twenty restarts and the table of results\<close>

text \<open>
  The second cell repeats the loop once per initial guess, drawn with \<open>np.random.rand()\<close>;
  the draws are the input, and their number is the number of restarts (20 in the notebook).
  \<open>pA_out[n_init] = theta_A\<close> stands inside the \<open>while\<close> loop, after the body; the loop
  body runs at least once (\<open>improvement\<close> starts at infinity and \<open>epsilon\<close> is 0.001),
  so after the loop the entry holds the \<open>theta_A\<close> of the last pass. An exception in one
  restart ends the cell.
\<close>

record restart_state =
  pA_init :: "npfloat list"
  pB_init :: "npfloat list"
  pA_out :: "npfloat list"
  pB_out :: "npfloat list"

fun restarts_from ::
  "machine \<Rightarrow> nat \<Rightarrow> (real \<times> real) list \<Rightarrow> nat list \<Rightarrow> nat \<Rightarrow> restart_state
     \<Rightarrow> py_error + restart_state" where
  "restarts_from m n_init [] hs num_toss st = Inr st"
| "restarts_from m n_init (g # gs) hs num_toss st =
     (let st1 = st\<lparr>pA_init := (pA_init st)[n_init := Fin (fst g)],
                    pB_init := (pB_init st)[n_init := Fin (snd g)]\<rparr>
      in case RunEM m hs num_toss (pA_init st1 ! n_init) (pB_init st1 ! n_init) (Fin (1 / 1000)) of
           Inl e \<Rightarrow> Inl (fst e)
         | Inr s \<Rightarrow>
             (case (theta_A s, theta_B s) of
                (Some a, Some b) \<Rightarrow>
                  restarts_from m (Suc n_init) gs hs num_toss
                    (st1\<lparr>pA_out := (pA_out st1)[n_init := a], pB_out := (pB_out st1)[n_init := b]\<rparr>)
              | _ \<Rightarrow> restarts_from m (Suc n_init) gs hs num_toss st1))"

definition restarts ::
  "machine \<Rightarrow> (real \<times> real) list \<Rightarrow> nat list \<Rightarrow> nat \<Rightarrow> py_error + restart_state" where
  "restarts m guesses hs num_toss =
     restarts_from m 0 guesses hs num_toss
       \<lparr>pA_init = replicate (length guesses) (Fin 0), pB_init = replicate (length guesses) (Fin 0),
        pA_out = replicate (length guesses) (Fin 0), pB_out = replicate (length guesses) (Fin 0)\<rparr>"

text \<open>
  The third cell: one row of the data frame per restart, with its index label,

  \<^verbatim>\<open>df['acc'] = np.abs(df['pA_out']-theta_A_true)+np.abs(df['pB_out']-theta_B_true)\<close>
\<close>

record df_row =
  row_index :: nat
  col_pA_init :: npfloat
  col_pB_init :: npfloat
  col_pA_out :: npfloat
  col_pB_out :: npfloat
  col_acc :: npfloat

definition accuracy :: "real \<Rightarrow> real \<Rightarrow> npfloat \<Rightarrow> npfloat \<Rightarrow> npfloat" where
  "accuracy theta_A_true theta_B_true a b =
     fl_add (fl_abs (fl_sub a (Fin theta_A_true))) (fl_abs (fl_sub b (Fin theta_B_true)))"

definition data_frame :: "real \<Rightarrow> real \<Rightarrow> restart_state \<Rightarrow> df_row list" where
  "data_frame theta_A_true theta_B_true st =
     map (\<lambda>i. \<lparr>row_index = i,
                col_pA_init = pA_init st ! i, col_pB_init = pB_init st ! i,
                col_pA_out = pA_out st ! i, col_pB_out = pB_out st ! i,
                col_acc = accuracy theta_A_true theta_B_true (pA_out st ! i) (pB_out st ! i)\<rparr>)
         [0..<length (pA_init st)]"

text \<open>
  \<open>df.sort_values('acc')\<close> sorts the rows in ascending order of the column, with the rows
  whose entry is \<open>nan\<close> last (pandas' default \<open>na_position='last'\<close>). The library routine
  is modelled by a sort on the key below. pandas does not promise the order among rows
  with equal entries (its default \<open>quicksort\<close> is not stable), and nothing below is
  stated about that order.
\<close>

fun acc_rank :: "npfloat \<Rightarrow> nat \<times> real" where
  "acc_rank NInf = (0, 0)"
| "acc_rank (Fin x) = (1, x)"
| "acc_rank PInf = (2, 0)"
| "acc_rank NaN = (3, 0)"

definition sort_values_acc :: "df_row list \<Rightarrow> df_row list" where
  "sort_values_acc rows = sort_key (\<lambda>r. acc_rank (col_acc r)) rows"

definition RunMultiRestart ::
  "machine \<Rightarrow> nat list \<Rightarrow> nat \<Rightarrow> (real \<times> real) list \<Rightarrow> real \<Rightarrow> real \<Rightarrow> py_error + df_row list" where
  "RunMultiRestart m hs num_toss guesses theta_A_true theta_B_true =
     (case restarts m guesses hs num_toss of
        Inl e \<Rightarrow> Inl e
      | Inr st \<Rightarrow> Inr (sort_values_acc (data_frame theta_A_true theta_B_true st)))"

subsection \<open>Loop states of a run, and one pass in closed form\<close>

text \<open>
  Every state the loop reaches from \<open>em_init\<close> is well formed: the arrays have the sizes
  the notebook gives them and \<open>j\<close> is a valid index.
\<close>

definition wf_state :: "em_state \<Rightarrow> bool" where
  "wf_state s \<longleftrightarrow>
     num_exp s = length (head_counts s) \<and>
     tail_counts s = map (\<lambda>h. int (num_coin_toss s) - int h) (head_counts s) \<and>
     length (pA_heads s) = 100 \<and> length (pB_heads s) = 100 \<and> j s < 100"

text \<open>
  \<open>overflows n h\<close>: \<open>compute_likelihood\<close> raises \<open>OverflowError\<close> for \<open>h\<close> heads in
  \<open>n\<close> tosses. \<open>lik_value\<close> is the float it returns otherwise.
\<close>

definition overflows :: "nat \<Rightarrow> nat \<Rightarrow> bool" where
  "overflows n h \<longleftrightarrow> float_limit \<le> n choose h \<or> float_limit \<le> n"

definition lik_value :: "machine \<Rightarrow> nat \<Rightarrow> nat \<Rightarrow> npfloat \<Rightarrow> npfloat" where
  "lik_value m obs n pheads =
     fp_mul m (fp_mul m (Fin (if n choose obs < 2 ^ 53 then real (n choose obs)
                              else rnd m (real (n choose obs))))
                        (fp_pow m pheads (int obs)))
              (fp_pow m (fp_sub m (Fin 1) pheads) (int n - int obs))"

text \<open>
  The likelihoods, weights and rows of experiment \<open>i\<close> in a pass in which no likelihood
  overflows, and the two expectation arrays the E step of such a pass builds.
\<close>

definition lA_of :: "machine \<Rightarrow> em_state \<Rightarrow> nat \<Rightarrow> npfloat" where
  "lA_of m s i = lik_value m (head_counts s ! i) (num_coin_toss s) (pA_heads s ! j s)"

definition lB_of :: "machine \<Rightarrow> em_state \<Rightarrow> nat \<Rightarrow> npfloat" where
  "lB_of m s i = lik_value m (head_counts s ! i) (num_coin_toss s) (pB_heads s ! j s)"

definition weightA :: "machine \<Rightarrow> em_state \<Rightarrow> nat \<Rightarrow> npfloat" where
  "weightA m s i = fp_div m (lA_of m s i) (fp_add m (lA_of m s i) (lB_of m s i))"

definition weightB :: "machine \<Rightarrow> em_state \<Rightarrow> nat \<Rightarrow> npfloat" where
  "weightB m s i = fp_div m (lB_of m s i) (fp_add m (lA_of m s i) (lB_of m s i))"

definition rowA :: "machine \<Rightarrow> em_state \<Rightarrow> nat \<Rightarrow> row" where
  "rowA m s i = scale_row m (weightA m s i) (head_counts s ! i) (tail_counts s ! i)"

definition rowB :: "machine \<Rightarrow> em_state \<Rightarrow> nat \<Rightarrow> row" where
  "rowB m s i = scale_row m (weightB m s i) (head_counts s ! i) (tail_counts s ! i)"

definition rowsA :: "machine \<Rightarrow> em_state \<Rightarrow> row list" where
  "rowsA m s = map (rowA m s) [0..<length (head_counts s)]"

definition rowsB :: "machine \<Rightarrow> em_state \<Rightarrow> row list" where
  "rowsB m s = map (rowB m s) [0..<length (head_counts s)]"

definition new_improvement :: "machine \<Rightarrow> em_state \<Rightarrow> npfloat" where
  "new_improvement m s =
     py_max2 (fl_abs (fp_sub m (m_step m (rowsA m s)) (pA_heads s ! j s)))
             (fl_abs (fp_sub m (m_step m (rowsB m s)) (pB_heads s ! j s)))"

text \<open>The values an absolute value can take.\<close>

definition abs_like :: "npfloat \<Rightarrow> bool" where
  "abs_like x \<longleftrightarrow> x = NaN \<or> x = PInf \<or> (\<exists>d. x = Fin d \<and> 0 \<le> d)"

text \<open>The state in which a run ended, whether it returned or raised.\<close>

definition final_state :: "(py_error \<times> em_state) + em_state \<Rightarrow> em_state" where
  "final_state r = (case r of Inl es \<Rightarrow> snd es | Inr s \<Rightarrow> s)"

subsection \<open>The heads and the tosses of one coin\<close>

text \<open>
  The two quantities the estimate from complete data is stated with: the number of heads,
  and the number of tosses, in the experiments that drew coin B (\<open>coinB\<close> true) or coin A.
\<close>

definition heads_of :: "bool \<Rightarrow> (nat \<times> nat) list \<Rightarrow> nat" where
  "heads_of coinB draws = sum_list (map snd (filter (\<lambda>d. (fst d \<noteq> 0) = coinB) draws))"

definition tosses_of :: "bool \<Rightarrow> (nat \<times> nat) list \<Rightarrow> nat \<Rightarrow> nat" where
  "tosses_of coinB draws num_toss = length (filter (\<lambda>d. (fst d \<noteq> 0) = coinB) draws) * num_toss"

subsection \<open>The expected sufficient statistics\<close>

text \<open>
  The expected heads and tails of each coin as sums over the experiments, added from the
  first experiment to the last, each product and each sum rounded:
  \<open>expHeads_A = \<Sum>\<^sub>i weightA\<^sub>i * heads\<^sub>i\<close> and so on.
\<close>

definition fp_sum :: "machine \<Rightarrow> npfloat list \<Rightarrow> npfloat" where
  "fp_sum m xs = foldl (fp_add m) (Fin 0) xs"

definition expHeads_A :: "machine \<Rightarrow> em_state \<Rightarrow> npfloat" where
  "expHeads_A m s = fp_sum m (map (\<lambda>i. fp_mul m (weightA m s i) (Fin (real (head_counts s ! i))))
                                [0..<length (head_counts s)])"

definition expTails_A :: "machine \<Rightarrow> em_state \<Rightarrow> npfloat" where
  "expTails_A m s = fp_sum m (map (\<lambda>i. fp_mul m (weightA m s i) (Fin (real_of_int (tail_counts s ! i))))
                                [0..<length (head_counts s)])"

definition expHeads_B :: "machine \<Rightarrow> em_state \<Rightarrow> npfloat" where
  "expHeads_B m s = fp_sum m (map (\<lambda>i. fp_mul m (weightB m s i) (Fin (real (head_counts s ! i))))
                                [0..<length (head_counts s)])"

definition expTails_B :: "machine \<Rightarrow> em_state \<Rightarrow> npfloat" where
  "expTails_B m s = fp_sum m (map (\<lambda>i. fp_mul m (weightB m s i) (Fin (real_of_int (tail_counts s ! i))))
                                [0..<length (head_counts s)])"

subsection \<open>Machines\<close>

text \<open>
  \<open>exact_machine\<close> rounds nothing. It is the machine of most examples below, which
  are chosen so that double precision computes them without rounding as well (halves,
  small whole numbers, 0 and 1). \<open>underflow_machine\<close> rounds nothing either, but it
  replaces by 0 what double precision cannot tell from 0: a result of magnitude
  \<open>2^-1075\<close> (half the least positive double) or less.

  \<open>sound_machine m\<close> collects the properties of IEEE 754 round-to-nearest and of a
  faithful \<open>pow\<close> that the bounds on the new biases rest on: the whole numbers below
  \<open>2^53\<close> are floats, rounding is monotone and leaves a float as it is, and a power of
  a base in \<open>[0, 1]\<close> with a positive exponent is a float in \<open>[0, 1]\<close>.
\<close>

definition exact_machine :: machine where
  "exact_machine =
     \<lparr>rnd = (\<lambda>x. x),
      powf = (\<lambda>x e. if 0 \<le> e then Fin (x ^ nat e) else Fin (1 / x ^ nat (- e))),
      np_sum_flat = foldl fl_add (Fin 0)\<rparr>"

definition flush :: "real \<Rightarrow> real" where
  "flush x = (if \<bar>x\<bar> \<le> 1 / 2 ^ 1075 then 0 else x)"

definition underflow_machine :: machine where
  "underflow_machine =
     \<lparr>rnd = flush,
      powf = (\<lambda>x e. let z = (if 0 \<le> e then x ^ nat e else 1 / x ^ nat (- e))
                     in if real float_limit \<le> z then PInf
                        else if z \<le> - real float_limit then NInf
                        else Fin (flush z)),
      np_sum_flat = foldl fl_add (Fin 0)\<rparr>"

definition sound_machine :: "machine \<Rightarrow> bool" where
  "sound_machine m \<longleftrightarrow>
     (\<forall>k::nat. k < 2 ^ 53 \<longrightarrow> rnd m (real k) = real k) \<and>
     (\<forall>x y. x \<le> y \<longrightarrow> rnd m x \<le> rnd m y) \<and>
     (\<forall>x. rnd m (rnd m x) = rnd m x) \<and>
     (\<forall>x e. 0 \<le> x \<and> x \<le> 1 \<and> 0 < e \<longrightarrow> (\<exists>y. powf m x e = Fin y \<and> 0 \<le> y \<and> y \<le> 1))"

text \<open>
  \<open>nonneg v\<close>: a float that is not negative, \<open>nan\<close> included. \<open>rounded m v\<close>: a value
  that rounding leaves as it is.
\<close>

definition nonneg :: "npfloat \<Rightarrow> bool" where
  "nonneg v \<longleftrightarrow> v = NaN \<or> v = PInf \<or> (\<exists>x. v = Fin x \<and> 0 \<le> x)"

definition rounded :: "machine \<Rightarrow> npfloat \<Rightarrow> bool" where
  "rounded m v \<longleftrightarrow> (\<forall>x. v = Fin x \<longrightarrow> rnd m x = x)"

subsection \<open>The entries of the restart arrays\<close>

text \<open>
  What a finished sequence of restarts has stored for restart \<open>k\<close> with guess \<open>g\<close>: the
  guess, and the biases the run from that guess returned. \<open>same_lengths\<close> and
  \<open>same_entry\<close> say that the four arrays have the given size, and that two states agree
  at an index.
\<close>

definition restart_done ::
  "machine \<Rightarrow> nat list \<Rightarrow> nat \<Rightarrow> real \<times> real \<Rightarrow> restart_state \<Rightarrow> nat \<Rightarrow> bool" where
  "restart_done m hs num_toss g st k \<longleftrightarrow>
     pA_init st ! k = Fin (fst g) \<and> pB_init st ! k = Fin (snd g) \<and>
     (\<exists>s. RunEM m hs num_toss (Fin (fst g)) (Fin (snd g)) (Fin (1 / 1000)) = Inr s
          \<and> theta_A s = Some (pA_out st ! k) \<and> theta_B s = Some (pB_out st ! k))"

definition same_lengths :: "restart_state \<Rightarrow> nat \<Rightarrow> bool" where
  "same_lengths st N \<longleftrightarrow>
     length (pA_init st) = N \<and> length (pB_init st) = N \<and> length (pA_out st) = N \<and> length (pB_out st) = N"

definition same_entry :: "restart_state \<Rightarrow> restart_state \<Rightarrow> nat \<Rightarrow> bool" where
  "same_entry st st' k \<longleftrightarrow>
     pA_init st' ! k = pA_init st ! k \<and> pB_init st' ! k = pB_init st ! k \<and>
     pA_out st' ! k = pA_out st ! k \<and> pB_out st' ! k = pB_out st ! k"

subsection \<open>The update over the reals\<close>

text \<open>
  The quantities of one pass as functions of real numbers, without rounding: \<open>lik h n p\<close>
  is the binomial probability of \<open>h\<close> heads in \<open>n\<close> tosses, \<open>resp n a b h\<close> the weight
  of the first coin for an experiment with \<open>h\<close> heads when the biases are \<open>a\<close> and
  \<open>b\<close>, and \<open>em_update hs n a b\<close> the new bias of the first coin after one pass.
  \<open>counts_ok\<close>: a dataset as the experiments produce it, with at least one experiment, at
  least one toss in each, and no more heads than tosses.

  \<open>ll\<close> is the observed-data log-likelihood. The notebook never computes it. Each
  experiment draws coin A or coin B with probability 1/2 (\<open>np.random.randint(2)\<close>), so
  the likelihood of an experiment with \<open>h\<close> heads is \<open>lik h n a / 2 + lik h n b / 2\<close>,
  and the log-likelihood of the dataset is the sum of the logarithms. \<open>good hs n a b\<close>:
  the biases are probabilities and every experiment has a positive likelihood under each
  coin.
\<close>

definition lik :: "nat \<Rightarrow> nat \<Rightarrow> real \<Rightarrow> real" where
  "lik h n p = real (n choose h) * p ^ h * (1 - p) ^ (n - h)"

definition resp :: "nat \<Rightarrow> real \<Rightarrow> real \<Rightarrow> nat \<Rightarrow> real" where
  "resp n a b h = lik h n a / (lik h n a + lik h n b)"

definition exp_heads :: "nat list \<Rightarrow> nat \<Rightarrow> real \<Rightarrow> real \<Rightarrow> real" where
  "exp_heads hs n a b = (\<Sum>h\<leftarrow>hs. resp n a b h * real h)"

definition exp_tails :: "nat list \<Rightarrow> nat \<Rightarrow> real \<Rightarrow> real \<Rightarrow> real" where
  "exp_tails hs n a b = (\<Sum>h\<leftarrow>hs. resp n a b h * (real n - real h))"

definition em_update :: "nat list \<Rightarrow> nat \<Rightarrow> real \<Rightarrow> real \<Rightarrow> real" where
  "em_update hs n a b = exp_heads hs n a b / (exp_heads hs n a b + exp_tails hs n a b)"

definition counts_ok :: "nat list \<Rightarrow> nat \<Rightarrow> bool" where
  "counts_ok hs n \<longleftrightarrow> hs \<noteq> [] \<and> 0 < n \<and> (\<forall>h\<in>set hs. h \<le> n)"

definition ll :: "nat list \<Rightarrow> nat \<Rightarrow> real \<Rightarrow> real \<Rightarrow> real" where
  "ll hs n a b = (\<Sum>h\<leftarrow>hs. ln (lik h n a / 2 + lik h n b / 2))"

definition good :: "nat list \<Rightarrow> nat \<Rightarrow> real \<Rightarrow> real \<Rightarrow> bool" where
  "good hs n a b \<longleftrightarrow> 0 \<le> a \<and> a \<le> 1 \<and> 0 \<le> b \<and> b \<le> 1 \<and> (\<forall>h\<in>set hs. 0 < lik h n a \<and> 0 < lik h n b)"

section \<open>Theorems\<close>

subsection \<open>The conversion limit and the binomial coefficients\<close>

lemma float_limit_pos: "2 ^ 1023 < float_limit"
  by (simp add: float_limit_def)

lemma float_limit_gt_53: "(2::nat) ^ 53 < float_limit"
  by (simp add: float_limit_def)

lemma float_limit_less: "float_limit < 2 ^ 1024"
  by (simp add: float_limit_def)

lemma choose_below_limit:
  assumes "n < 1024"
  shows "n choose k < float_limit"
proof -
  have "n choose k \<le> 2 ^ n" by (rule binomial_le_pow2)
  also have "(2::nat) ^ n \<le> 2 ^ 1023" using assms by (intro power_increasing) simp_all
  finally show ?thesis using float_limit_pos by linarith
qed

text \<open>
  The central binomial coefficient: \<open>16^k \<le> 4 k C(2k, k)^2\<close>, so that
  \<open>C(1030, 515) \<ge> 2^1024\<close>.
\<close>

lemma central_binomial_step:
  "Suc k * (2 * Suc k choose Suc k) = 2 * (2 * k + 1) * (2 * k choose k)"
proof -
  have a: "Suc k * (Suc (2 * k) choose Suc k) = Suc (2 * k) * (2 * k choose k)"
    by (rule Suc_times_binomial)
  have b: "Suc k * (Suc (Suc (2 * k)) choose Suc k) = Suc (Suc (2 * k)) * (Suc (2 * k) choose k)"
    by (rule Suc_times_binomial)
  have c: "Suc (2 * k) choose k = Suc (2 * k) choose Suc k"
    using binomial_symmetric [of k "Suc (2 * k)"] by simp
  have "Suc k * (Suc k * (2 * Suc k choose Suc k)) = Suc k * (2 * (2 * k + 1) * (2 * k choose k))"
    using a b c by (simp add: algebra_simps)
  then show ?thesis by (simp only: mult_cancel1) simp
qed

lemma central_binomial_sqrt:
  "0 < k \<Longrightarrow> (16::nat) ^ k \<le> 4 * k * (2 * k choose k)\<^sup>2"
proof (induction k)
  case 0
  then show ?case by simp
next
  case (Suc k)
  show ?case
  proof (cases "k = 0")
    case True
    then show ?thesis by (simp add: eval_nat_numeral)
  next
    case False
    then have IH: "(16::nat) ^ k \<le> 4 * k * (2 * k choose k)\<^sup>2" using Suc.IH by simp
    let ?c = "2 * k choose k" and ?d = "2 * Suc k choose Suc k"
    have s: "Suc k * ?d = 2 * (2 * k + 1) * ?c" by (rule central_binomial_step)
    have "16 ^ Suc k * Suc k = 16 * (16 ^ k) * Suc k" by simp
    also have "\<dots> \<le> 16 * (4 * k * ?c\<^sup>2) * Suc k"
      by (rule mult_le_mono1, rule mult_le_mono2, rule IH)
    also have "\<dots> = 16 * ?c\<^sup>2 * (4 * k * Suc k)" by (simp add: algebra_simps)
    also have "\<dots> \<le> 16 * ?c\<^sup>2 * (2 * k + 1)\<^sup>2"
      by (intro mult_left_mono) (simp_all add: power2_eq_square)
    also have "\<dots> = 4 * (2 * (2 * k + 1) * ?c)\<^sup>2" by (simp add: power2_eq_square algebra_simps)
    also have "\<dots> = 4 * (Suc k * ?d)\<^sup>2" by (simp only: s)
    also have "\<dots> = (4 * Suc k * ?d\<^sup>2) * Suc k" by (simp add: power2_eq_square algebra_simps)
    finally have "16 ^ Suc k * Suc k \<le> (4 * Suc k * ?d\<^sup>2) * Suc k" .
    then show ?thesis by (simp only: mult_le_cancel2)
  qed
qed

lemma choose_1030_515: "float_limit \<le> 1030 choose 515"
proof (rule ccontr)
  assume "\<not> float_limit \<le> 1030 choose 515"
  then have lt: "(1030::nat) choose 515 < 2 ^ 1024" using float_limit_less by linarith
  have "((1030::nat) choose 515)\<^sup>2 < (2 ^ 1024)\<^sup>2"
    using lt by (intro power_strict_mono) simp_all
  then have a: "4 * 515 * ((1030::nat) choose 515)\<^sup>2 < 4 * 515 * (2 ^ 1024)\<^sup>2" by simp
  have b: "(16::nat) ^ 515 \<le> 4 * 515 * (2 * 515 choose 515)\<^sup>2"
    by (rule central_binomial_sqrt) simp
  have c: "(2 * 515 :: nat) = 1030" by simp
  have d: "(4::nat) * 515 * (2 ^ 1024)\<^sup>2 \<le> 16 ^ 515" by simp
  from a b d show False unfolding c by linarith
qed

lemma overflows_1030_515: "overflows 1030 515"
  by (simp add: overflows_def choose_1030_515)

lemma not_overflows_small: "n < 1024 \<Longrightarrow> \<not> overflows n h"
  using choose_below_limit [of n h] float_limit_pos
  by (simp add: overflows_def not_le)

subsection \<open>The rounded operations on the degenerate inputs and without rounding\<close>

lemma compute_likelihood_cases:
  "compute_likelihood m obs n p =
     (if overflows n obs then Inl OverflowError else Inr (lik_value m obs n p))"
  by (simp add: compute_likelihood_def int_to_float_def overflows_def lik_value_def)

lemma fl_zero [simp]: "fl m 0 = Fin 0"
  by (simp add: fl_def)

lemma fp_sub_one_zero [simp]: "fp_sub m (Fin 1) (Fin 0) = Fin 1"
  by (simp add: fp_sub_def)

lemma fp_sub_one_one [simp]: "fp_sub m (Fin 1) (Fin 1) = Fin 0"
  by (simp add: fp_sub_def)

lemma fp_pow_one [simp]: "fp_pow m (Fin 1) e = Fin 1"
  by (simp add: fp_pow_def)

lemma fp_pow_zero [simp]: "0 < e \<Longrightarrow> fp_pow m (Fin 0) e = Fin 0"
  by (simp add: fp_pow_def)

lemma lik_value_p0: "0 < k \<Longrightarrow> lik_value m k n (Fin 0) = Fin 0"
  by (simp add: lik_value_def)

lemma lik_value_p1: "k < n \<Longrightarrow> lik_value m k n (Fin 1) = Fin 0"
  by (simp add: lik_value_def)

lemma fl_exact: "\<bar>z\<bar> < real float_limit \<Longrightarrow> fl exact_machine z = Fin z"
  by (auto simp: fl_def exact_machine_def)

lemma fp_pow_exact: "0 \<le> e \<Longrightarrow> fp_pow exact_machine (Fin r) e = Fin (r ^ nat e)"
  by (auto simp: fp_pow_def exact_machine_def power_0_left)

lemma fp_mul_exact:
  "\<bar>x * y\<bar> < real float_limit \<Longrightarrow> fp_mul exact_machine (Fin x) (Fin y) = Fin (x * y)"
  by (simp add: fl_exact)

lemma fp_sub_exact:
  "\<bar>x - y\<bar> < real float_limit \<Longrightarrow> fp_sub exact_machine (Fin x) (Fin y) = Fin (x - y)"
  by (simp add: fp_sub_def fl_exact)

lemma one_less_float_limit: "1 < real float_limit"
proof -
  have "(1::nat) < float_limit" using float_limit_gt_53 by (simp add: float_limit_def)
  then show ?thesis by simp
qed

lemma float_limit_real_pos: "0 < real float_limit"
  using one_less_float_limit by linarith

lemma lik_value_exact:
  assumes "k \<le> n" and "0 \<le> p" and "p \<le> 1" and "n choose k < float_limit"
  shows "lik_value exact_machine k n (Fin p) = Fin (real (n choose k) * p ^ k * (1 - p) ^ (n - k))"
proof -
  let ?c = "real (n choose k)"
  have e: "int n - int k = int (n - k)" using assms(1) by simp
  have q: "0 \<le> 1 - p" "1 - p \<le> 1" using assms(2,3) by simp_all
  have pk: "0 \<le> p ^ k" "p ^ k \<le> 1" using assms(2,3) by (simp_all add: power_le_one)
  have qk: "0 \<le> (1 - p) ^ (n - k)" "(1 - p) ^ (n - k) \<le> 1" using q by (simp_all add: power_le_one)
  have c: "?c < real float_limit" using assms(4) by simp
  have 1: "\<bar>1 - p\<bar> < real float_limit" using q one_less_float_limit by simp
  have "?c * p ^ k \<le> ?c * 1" using pk by (intro mult_left_mono) simp_all
  then have 2: "\<bar>?c * p ^ k\<bar> < real float_limit" using c pk by simp
  have "?c * p ^ k * (1 - p) ^ (n - k) \<le> ?c * p ^ k * 1"
    using pk qk by (intro mult_left_mono) simp_all
  then have 3: "\<bar>?c * p ^ k * (1 - p) ^ (n - k)\<bar> < real float_limit" using 2 pk qk by simp
  have r: "(if n choose k < 2 ^ 53 then ?c else rnd exact_machine ?c) = ?c"
    by (simp add: exact_machine_def)
  show ?thesis
    unfolding lik_value_def e r
    by (simp only: fp_pow_exact fp_sub_exact [OF 1] fp_mul_exact [OF 2] fp_mul_exact [OF 3]
          of_nat_0_le_iff nat_int)
qed

lemma choose_10_5: "(10::nat) choose 5 = 252"
  by (simp add: eval_nat_numeral)

subsection \<open>The two machines of the examples\<close>

lemma sound_exact_machine: "sound_machine exact_machine"
  by (auto simp: sound_machine_def exact_machine_def power_le_one)

lemma flush_mono: "x \<le> y \<Longrightarrow> flush x \<le> flush y"
  by (auto simp: flush_def abs_if split: if_splits)

lemma flush_idem: "flush (flush x) = flush x"
  by (simp add: flush_def)

lemma flush_nat: "flush (real k) = real k"
proof (cases k)
  case 0
  then show ?thesis by (simp add: flush_def)
next
  case (Suc i)
  have "(1::real) / 2 ^ 1075 < 1" by simp
  also have "\<dots> \<le> real k" using Suc by simp
  finally show ?thesis by (simp add: flush_def)
qed

lemma flush_unit: "0 \<le> z \<Longrightarrow> z \<le> 1 \<Longrightarrow> 0 \<le> flush z \<and> flush z \<le> 1"
  by (simp add: flush_def)

lemma sound_underflow_machine: "sound_machine underflow_machine"
proof -
  have p: "\<exists>y. powf underflow_machine x e = Fin y \<and> 0 \<le> y \<and> y \<le> 1"
    if "0 \<le> x" "x \<le> 1" "0 < e" for x e
  proof -
    let ?z = "x ^ nat e"
    have z: "0 \<le> ?z" "?z \<le> 1" using that by (simp_all add: power_le_one)
    then have "?z < real float_limit" "\<not> ?z \<le> - real float_limit"
      using one_less_float_limit by linarith+
    then show ?thesis using that(3) flush_unit [OF z]
      by (simp add: underflow_machine_def Let_def)
  qed
  show ?thesis
    unfolding sound_machine_def
    using p by (simp add: underflow_machine_def flush_mono flush_idem flush_nat)
qed

text \<open>
  300 heads in 300 tosses at the bias 1/16: the likelihood is \<open>(1/16)^300 = 2^-1200\<close>,
  which underflows to 0.
\<close>

lemma fp_pow_exponent_zero [simp]: "fp_pow m x 0 = Fin 1"
  by (simp add: fp_pow_def)

lemma tiny_power: "\<bar>(1/16 :: real) ^ 300\<bar> \<le> 1 / 2 ^ 1075"
  by (simp add: power_one_over)

lemma lik_300_underflow: "lik_value underflow_machine 300 300 (Fin (1/16)) = Fin 0"
proof -
  have z: "(1/16 :: real) ^ 300 < real float_limit" "\<not> (1/16 :: real) ^ 300 \<le> - real float_limit"
  proof -
    have "(1/16 :: real) ^ 300 \<le> 1" by (simp add: power_le_one)
    then show "(1/16 :: real) ^ 300 < real float_limit" using one_less_float_limit by linarith
    have "0 \<le> (1/16 :: real) ^ 300" by simp
    then show "\<not> (1/16 :: real) ^ 300 \<le> - real float_limit" using float_limit_real_pos by linarith
  qed
  have p: "fp_pow underflow_machine (Fin (1/16)) 300 = Fin 0"
    using z tiny_power by (simp add: fp_pow_def underflow_machine_def Let_def flush_def)
  show ?thesis
    by (simp add: lik_value_def p)
qed

lemma compute_likelihood_300_underflow:
  "compute_likelihood underflow_machine 300 300 (Fin (1/16)) = Inr (Fin 0)"
  by (simp add: compute_likelihood_cases not_overflows_small lik_300_underflow)

subsection \<open>The likelihood of one experiment\<close>

lemma not_overflows_53:
  assumes "n < 2 ^ 53" and "n choose k < float_limit"
  shows "\<not> overflows n k"
  using assms float_limit_gt_53 by (simp add: overflows_def)

text \<open>
  Claim C5, as amended. For \<open>0 \<le> k \<le> n < 2^53\<close> and a probability \<open>p\<close>:
  \<open>compute_likelihood k n p\<close> raises \<open>OverflowError\<close> when the binomial coefficient
  \<open>C(n,k)\<close> is \<open>2^1024 - 2^970\<close> or more, which does not happen for \<open>n\<close> below 1024.
  Otherwise it raises no error and returns the product of the converted coefficient, the
  power \<open>p^k\<close> and the power \<open>(1-p)^(n-k)\<close>, each operation rounded by the machine; at
  \<open>p = 0\<close> with \<open>k > 0\<close> and at \<open>p = 1\<close> with \<open>k < n\<close> that float is exactly 0, and on the
  machine that rounds nothing it is the number \<open>C(n,k) p^k (1-p)^(n-k)\<close>.
\<close>

theorem compute_likelihood_binomial:
  assumes "k \<le> n" and "n < 2 ^ 53" and "0 \<le> p" and "p \<le> 1"
  shows "(float_limit \<le> n choose k \<longrightarrow> compute_likelihood m k n (Fin p) = Inl OverflowError)
       \<and> (n choose k < float_limit \<longrightarrow>
            compute_likelihood m k n (Fin p) =
              Inr (fp_mul m (fp_mul m (Fin (if n choose k < 2 ^ 53 then real (n choose k)
                                            else rnd m (real (n choose k))))
                                      (fp_pow m (Fin p) (int k)))
                            (fp_pow m (fp_sub m (Fin 1) (Fin p)) (int (n - k))))
          \<and> (p = 0 \<and> 0 < k \<longrightarrow> compute_likelihood m k n (Fin p) = Inr (Fin 0))
          \<and> (p = 1 \<and> k < n \<longrightarrow> compute_likelihood m k n (Fin p) = Inr (Fin 0))
          \<and> compute_likelihood exact_machine k n (Fin p) =
              Inr (Fin (real (n choose k) * p ^ k * (1 - p) ^ (n - k))))
       \<and> (n < 1024 \<longrightarrow> n choose k < float_limit)"
proof -
  have e: "int n - int k = int (n - k)" using assms(1) by simp
  have 1: "float_limit \<le> n choose k \<longrightarrow> compute_likelihood m k n (Fin p) = Inl OverflowError"
    by (simp add: compute_likelihood_cases overflows_def)
  have 2: "compute_likelihood m' k n (Fin p) = Inr (lik_value m' k n (Fin p))"
    if "n choose k < float_limit" for m'
    using not_overflows_53 [OF assms(2) that] by (simp add: compute_likelihood_cases)
  have 3: "lik_value m k n (Fin p) =
             fp_mul m (fp_mul m (Fin (if n choose k < 2 ^ 53 then real (n choose k)
                                      else rnd m (real (n choose k))))
                                (fp_pow m (Fin p) (int k)))
                      (fp_pow m (fp_sub m (Fin 1) (Fin p)) (int (n - k)))"
    unfolding lik_value_def e ..
  have 4: "n < 1024 \<longrightarrow> n choose k < float_limit" by (simp add: choose_below_limit)
  show ?thesis
    using 1 2 3 4 lik_value_p0 [of k m n] lik_value_p1 [of k n m]
      lik_value_exact [OF assms(1,3,4)]
    by auto
qed

theorem compute_likelihood_binomial_witness:
  "compute_likelihood exact_machine 5 10 (Fin (1/2)) = Inr (Fin (63/256))
   \<and> compute_likelihood exact_machine 5 10 (Fin 0) = Inr (Fin 0)
   \<and> compute_likelihood exact_machine 5 10 (Fin 1) = Inr (Fin 0)"
proof -
  have c: "(10::nat) choose 5 < float_limit" by (simp add: choose_10_5 float_limit_def)
  show ?thesis
    using compute_likelihood_binomial [of 5 10 "1/2" exact_machine]
          compute_likelihood_binomial [of 5 10 0 exact_machine]
          compute_likelihood_binomial [of 5 10 1 exact_machine] c
    by (auto simp: choose_10_5 power_one_over)
qed

text \<open>
  Claim C5 fails as stated: 515 heads in 1030 tosses raise \<open>OverflowError\<close> at the
  degenerate bias 0, because the binomial coefficient (a Python integer of 1025 bits) is
  too large to be converted to a float. And on a machine with underflow the likelihood of
  300 heads in 300 tosses at the bias 1/16 is the float 0, which is not the number
  \<open>C(300,300) (1/16)^300 (15/16)^0\<close>.
\<close>

theorem compute_likelihood_counterexample:
  "compute_likelihood exact_machine 515 1030 (Fin 0) = Inl OverflowError
   \<and> compute_likelihood underflow_machine 300 300 (Fin (1/16)) = Inr (Fin 0)
   \<and> real (300 choose 300) * (1/16) ^ 300 * (1 - 1/16) ^ (300 - 300) \<noteq> 0"
proof -
  have "compute_likelihood exact_machine 515 1030 (Fin 0) = Inl OverflowError"
    by (simp add: compute_likelihood_cases overflows_1030_515)
  then show ?thesis by (simp add: compute_likelihood_300_underflow)
qed

subsection \<open>The E step\<close>

lemma e_step_length:
  "e_step m s is ex = Inr ex' \<Longrightarrow>
     length (fst ex') = length (fst ex) \<and> length (snd ex') = length (snd ex)"
proof (induction "is" arbitrary: ex)
  case Nil
  then show ?case by simp
next
  case (Cons i "is")
  then show ?case
    by (fastforce simp: Let_def split: if_splits sum.splits)
qed

lemma e_step_error_length:
  "e_step m s is ex = Inl (e, ex') \<Longrightarrow>
     length (fst ex') = length (fst ex) \<and> length (snd ex') = length (snd ex)"
proof (induction "is" arbitrary: ex)
  case Nil
  then show ?case by simp
next
  case (Cons i "is")
  then show ?case
    by (fastforce simp: Let_def split: if_splits sum.splits)
qed

lemma e_step_error:
  assumes "e_step m s is ex = Inl (e, ex')"
    and "j s < length (pA_heads s)" and "j s < length (pB_heads s)"
    and "\<forall>i\<in>set is. i < length (fst ex) \<and> i < length (snd ex)"
  shows "e = OverflowError \<and> (\<exists>i\<in>set is. overflows (num_coin_toss s) (head_counts s ! i))"
  using assms
proof (induction "is" arbitrary: ex)
  case Nil
  then show ?case by simp
next
  case (Cons i "is")
  show ?case
  proof (cases "overflows (num_coin_toss s) (head_counts s ! i)")
    case True
    then show ?thesis using Cons.prems
      by (simp add: Let_def compute_likelihood_cases)
  next
    case False
    let ?ex = "((fst ex)[i := scale_row m (weightA m s i) (head_counts s ! i) (tail_counts s ! i)],
                (snd ex)[i := scale_row m (weightB m s i) (head_counts s ! i) (tail_counts s ! i)])"
    have r: "e_step m s is ?ex = Inl (e, ex')"
      using Cons.prems False
      by (simp add: Let_def compute_likelihood_cases weightA_def weightB_def lA_of_def lB_of_def)
    have "\<forall>i\<in>set is. i < length (fst ?ex) \<and> i < length (snd ?ex)"
      using Cons.prems(4) by simp
    from Cons.IH [OF r Cons.prems(2,3) this] show ?thesis by auto
  qed
qed

lemma e_step_ok:
  assumes "j s < length (pA_heads s)" and "j s < length (pB_heads s)"
    and "\<forall>i\<in>set is. i < length (fst ex) \<and> i < length (snd ex)
                     \<and> \<not> overflows (num_coin_toss s) (head_counts s ! i)"
  shows "e_step m s is ex =
           Inr (foldl (\<lambda>a i. a[i := rowA m s i]) (fst ex) is,
                foldl (\<lambda>a i. a[i := rowB m s i]) (snd ex) is)"
  using assms
proof (induction "is" arbitrary: ex)
  case Nil
  then show ?case by simp
next
  case (Cons i "is")
  let ?ex = "((fst ex)[i := rowA m s i], (snd ex)[i := rowB m s i])"
  have r: "e_step m s (i # is) ex = e_step m s is ?ex"
    using Cons.prems
    by (simp add: Let_def compute_likelihood_cases rowA_def rowB_def weightA_def weightB_def
        lA_of_def lB_of_def)
  have "\<forall>i\<in>set is. i < length (fst ?ex) \<and> i < length (snd ?ex)
                     \<and> \<not> overflows (num_coin_toss s) (head_counts s ! i)"
    using Cons.prems(3) by simp
  from Cons.IH [OF Cons.prems(1,2) this] show ?case unfolding r by simp
qed

lemma foldl_update_length: "length (foldl (\<lambda>a i. a[i := f i]) a is) = length a"
  by (induction "is" arbitrary: a) simp_all

lemma foldl_update_nth:
  "k < length a \<Longrightarrow> foldl (\<lambda>a i. a[i := f i]) a is ! k = (if k \<in> set is then f k else a ! k)"
proof (induction "is" arbitrary: a)
  case Nil
  then show ?case by simp
next
  case (Cons i "is")
  then show ?case by (cases "k = i") simp_all
qed

lemma foldl_update_all:
  "foldl (\<lambda>a i. a[i := f i]) (replicate N z) [0..<N] = map f [0..<N]"
  by (rule nth_equalityI) (simp_all add: foldl_update_length foldl_update_nth)

lemma e_step_rows:
  assumes "wf_state s" and "\<forall>h\<in>set (head_counts s). \<not> overflows (num_coin_toss s) h"
  shows "e_step m s [0..<length (head_counts s)]
           (replicate (length (head_counts s)) zero_row, replicate (length (head_counts s)) zero_row)
         = Inr (rowsA m s, rowsB m s)"
proof -
  have j: "j s < length (pA_heads s)" "j s < length (pB_heads s)"
    using assms(1) by (simp_all add: wf_state_def)
  have "\<forall>i\<in>set [0..<length (head_counts s)].
          i < length (fst (replicate (length (head_counts s)) zero_row, replicate (length (head_counts s)) zero_row))
        \<and> i < length (snd (replicate (length (head_counts s)) zero_row, replicate (length (head_counts s)) zero_row))
        \<and> \<not> overflows (num_coin_toss s) (head_counts s ! i)"
    using assms(2) by simp
  from e_step_ok [OF j this] show ?thesis
    by (simp add: foldl_update_all rowsA_def rowsB_def)
qed

subsection \<open>The loop: frame, closed form of a pass, termination\<close>

lemma em_body_frame:
  "em_body m s = Inr s' \<Longrightarrow>
     head_counts s' = head_counts s \<and> tail_counts s' = tail_counts s \<and>
     num_coin_toss s' = num_coin_toss s \<and> num_exp s' = num_exp s \<and> epsilon s' = epsilon s \<and>
     length (pA_heads s') = length (pA_heads s) \<and> length (pB_heads s') = length (pB_heads s) \<and>
     j s' = j s + 1 \<and> j s + 1 < length (pA_heads s) \<and> j s + 1 < length (pB_heads s)"
  by (auto simp: em_body_def Let_def split: if_splits sum.splits prod.splits)

lemma em_body_frame_err:
  "em_body m s = Inl (e, s') \<Longrightarrow>
     head_counts s' = head_counts s \<and> tail_counts s' = tail_counts s \<and> j s' = j s"
  by (auto simp: em_body_def Let_def split: if_splits sum.splits prod.splits)

lemma em_while_frame:
  "(case em_while m s of
      Inl es \<Rightarrow> head_counts (snd es) = head_counts s \<and> tail_counts (snd es) = tail_counts s
    | Inr s' \<Rightarrow> head_counts s' = head_counts s \<and> tail_counts s' = tail_counts s)"
proof (induction m s rule: em_while.induct)
  case (1 m s)
  show ?case
  proof (cases "fl_gt (improvement s) (epsilon s)")
    case False
    then show ?thesis by (simp add: em_while.simps [of m s])
  next
    case True
    show ?thesis
    proof (cases "em_body m s")
      case (Inl es)
      then show ?thesis using True em_body_frame_err [of m s "fst es" "snd es"]
        by (simp add: em_while.simps [of m s])
    next
      case (Inr s')
      then show ?thesis using True "1.IH" [OF True Inr] em_body_frame [OF Inr]
        by (auto simp: em_while.simps [of m s] split: sum.splits)
    qed
  qed
qed

text \<open>
  Claim C10. The loop only reads the experiments: in the state in which a run ends, whether
  it returned or raised, \<open>head_counts\<close> and \<open>tail_counts\<close> are the arrays it started with.
\<close>

theorem RunEM_dataset_unchanged:
  "head_counts (final_state (RunEM m hs n a0 b0 eps)) = hs
   \<and> tail_counts (final_state (RunEM m hs n a0 b0 eps)) = map (\<lambda>h. int n - int h) hs"
  using em_while_frame [where m = m and s = "em_init hs n a0 b0 eps"]
  by (auto simp: RunEM_def final_state_def em_init_def split: sum.splits)

theorem RunEM_dataset_unchanged_witness:
  "head_counts (final_state (RunEM exact_machine [9, 8, 1] 10 (Fin (3/5)) (Fin (1/2)) (Fin (1/1000))))
     = [9, 8, 1]
   \<and> tail_counts (final_state (RunEM exact_machine [9, 8, 1] 10 (Fin (3/5)) (Fin (1/2)) (Fin (1/1000))))
     = [1, 2, 9]"
  using RunEM_dataset_unchanged [of exact_machine "[9, 8, 1]" 10 "Fin (3/5)" "Fin (1/2)" "Fin (1/1000)"]
  by simp

lemma em_body_wf:
  assumes "wf_state s" and "head_counts s \<noteq> []" and "j s + 1 < 100"
    and "\<forall>h\<in>set (head_counts s). \<not> overflows (num_coin_toss s) h"
  shows "\<exists>s'. em_body m s = Inr s' \<and> wf_state s' \<and> j s' = j s + 1
           \<and> head_counts s' = head_counts s \<and> num_coin_toss s' = num_coin_toss s
           \<and> epsilon s' = epsilon s
           \<and> expectation_A s' = rowsA m s \<and> expectation_B s' = rowsB m s
           \<and> pA_heads s' = (pA_heads s)[j s + 1 := m_step m (rowsA m s)]
           \<and> pB_heads s' = (pB_heads s)[j s + 1 := m_step m (rowsB m s)]
           \<and> theta_A s' = Some (fp_div m (fst (np_sum_axis0 m (rowsA m s))) (np_sum m (rowsA m s)))
           \<and> theta_B s' = Some (fp_div m (fst (np_sum_axis0 m (rowsB m s))) (np_sum m (rowsB m s)))
           \<and> improvement s' = new_improvement m s"
proof -
  have n: "min (length (head_counts s)) (length (tail_counts s)) = length (head_counts s)"
    "num_exp s = length (head_counts s)"
    using assms(1) by (simp_all add: wf_state_def)
  have ne: "rowsA m s \<noteq> []" using assms(2) by (simp add: rowsA_def)
  show ?thesis
    using assms(1,3) ne
    by (simp add: em_body_def n e_step_rows [OF assms(1,4)] wf_state_def Let_def new_improvement_def)
qed

lemma em_body_outcomes:
  assumes "wf_state s"
  shows "(\<exists>s'. em_body m s = Inr s' \<and> wf_state s' \<and> j s' = j s + 1
              \<and> head_counts s' = head_counts s \<and> num_coin_toss s' = num_coin_toss s
              \<and> epsilon s' = epsilon s \<and> abs_like (improvement s') \<and> head_counts s \<noteq> [])
       \<or> (\<exists>s'. em_body m s = Inl (IndexError, s') \<and> j s = 99 \<and> head_counts s \<noteq> [])
       \<or> (\<exists>s'. em_body m s = Inl (OverflowError, s')
              \<and> (\<exists>h\<in>set (head_counts s). overflows (num_coin_toss s) h))
       \<or> (\<exists>s'. em_body m s = Inl (TypeError, s') \<and> head_counts s = [])"
proof -
  let ?N = "length (head_counts s)"
  let ?z = "(replicate ?N zero_row, replicate ?N zero_row)"
  have n: "min (length (head_counts s)) (length (tail_counts s)) = ?N" "num_exp s = ?N"
    using assms by (simp_all add: wf_state_def)
  have jr: "j s < length (pA_heads s)" "j s < length (pB_heads s)"
    using assms by (simp_all add: wf_state_def)
  have len: "length (pA_heads s) = 100" "length (pB_heads s) = 100" "j s < 100"
    using assms by (simp_all add: wf_state_def)
  have idx: "\<forall>i\<in>set [0..<?N]. i < length (fst ?z) \<and> i < length (snd ?z)" by simp
  show ?thesis
  proof (cases "e_step m s [0..<?N] ?z")
    case (Inl eex)
    obtain e ex where eex: "eex = (e, ex)" by (cases eex)
    from e_step_error [OF Inl [unfolded eex] jr idx]
    have e: "e = OverflowError" and "\<exists>i\<in>set [0..<?N]. overflows (num_coin_toss s) (head_counts s ! i)"
      by simp_all
    then have "\<exists>h\<in>set (head_counts s). overflows (num_coin_toss s) h" by auto
    moreover have "\<exists>s'. em_body m s = Inl (OverflowError, s')"
      using Inl eex e by (simp add: em_body_def n)
    ultimately show ?thesis by blast
  next
    case (Inr ex)
    from e_step_length [OF Inr] have l: "length (fst ex) = ?N" "length (snd ex) = ?N" by simp_all
    show ?thesis
    proof (cases "head_counts s = []")
      case True
      then have "fst ex = []" using l by simp
      then have "\<exists>s'. em_body m s = Inl (TypeError, s')"
        using Inr by (simp add: em_body_def n Let_def)
      then show ?thesis using True by blast
    next
      case False
      then have ne: "fst ex \<noteq> []" using l by auto
      show ?thesis
      proof (cases "j s = 99")
        case True
        then have "\<exists>s'. em_body m s = Inl (IndexError, s')"
          using Inr ne len by (simp add: em_body_def n Let_def)
        then show ?thesis using True False by blast
      next
        case F: False
        then have lt: "j s + 1 < 100" using len by simp
        have "\<exists>s'. em_body m s = Inr s' \<and> wf_state s' \<and> j s' = j s + 1
              \<and> head_counts s' = head_counts s \<and> num_coin_toss s' = num_coin_toss s
              \<and> epsilon s' = epsilon s \<and> abs_like (improvement s')"
          using Inr ne len lt assms
          by (simp add: em_body_def n Let_def wf_state_def py_max2_def abs_like_def)
             (metis fl_abs.elims abs_ge_zero)
        then show ?thesis using False by blast
      qed
    qed
  qed
qed

lemma wf_em_init: "wf_state (em_init hs n a0 b0 eps)"
  by (simp add: wf_state_def em_init_def)

lemma em_init_reads [simp]:
  "pA_heads (em_init hs n a0 b0 eps) ! 0 = a0"
  "pB_heads (em_init hs n a0 b0 eps) ! 0 = b0"
  "head_counts (em_init hs n a0 b0 eps) = hs"
  "tail_counts (em_init hs n a0 b0 eps) = map (\<lambda>h. int n - int h) hs"
  "num_coin_toss (em_init hs n a0 b0 eps) = n"
  "epsilon (em_init hs n a0 b0 eps) = eps"
  "improvement (em_init hs n a0 b0 eps) = PInf"
  "j (em_init hs n a0 b0 eps) = 0"
  by (simp_all add: em_init_def)

lemma fl_gt_PInf: "fl_gt PInf eps \<longleftrightarrow> eps \<noteq> PInf \<and> eps \<noteq> NaN"
  by (cases eps) simp_all

lemma abs_like_exit:
  assumes "abs_like x" and "\<not> fl_gt x eps" and "fl_gt PInf eps"
  shows "x = NaN \<or> (\<exists>d e. x = Fin d \<and> eps = Fin e \<and> 0 \<le> d \<and> d \<le> e)"
  using assms by (cases x; cases eps) (auto simp: abs_like_def)

lemma em_while_outcomes:
  assumes "wf_state s" and "abs_like (improvement s)"
  shows "(\<exists>s'. em_while m s = Inr s' \<and> j s \<le> j s' \<and> j s' \<le> 99 \<and> abs_like (improvement s')
              \<and> \<not> fl_gt (improvement s') (epsilon s) \<and> (j s < j s' \<longrightarrow> head_counts s \<noteq> []))
       \<or> (\<exists>s'. em_while m s = Inl (IndexError, s') \<and> j s' = 99 \<and> head_counts s \<noteq> [])
       \<or> (\<exists>s'. em_while m s = Inl (OverflowError, s') \<and> j s' \<le> 99
              \<and> (\<exists>h\<in>set (head_counts s). overflows (num_coin_toss s) h))
       \<or> (\<exists>s'. em_while m s = Inl (TypeError, s') \<and> j s' = j s \<and> head_counts s = [])"
  using assms
proof (induction m s rule: em_while.induct)
  case (1 m s)
  have j99: "j s \<le> 99" using "1.prems"(1) by (simp add: wf_state_def)
  show ?case
  proof (cases "fl_gt (improvement s) (epsilon s)")
    case False
    then show ?thesis using j99 "1.prems"(2) by (simp add: em_while.simps [of m s])
  next
    case True
    note ob = em_body_outcomes [OF "1.prems"(1), of m]
    show ?thesis
    proof (cases "em_body m s")
      case (Inl es)
      obtain e s' where es: "es = (e, s')" by (cases es)
      have w: "em_while m s = Inl (e, s')" using True Inl es by (simp add: em_while.simps [of m s])
      have js: "j s' = j s" using em_body_frame_err [OF Inl [unfolded es]] by simp
      show ?thesis using ob Inl es w js j99 by auto
    next
      case (Inr s')
      from ob Inr have w': "wf_state s'" and js: "j s' = j s + 1"
        and h: "head_counts s' = head_counts s" and n: "num_coin_toss s' = num_coin_toss s"
        and e: "epsilon s' = epsilon s" and a: "abs_like (improvement s')"
        and ne: "head_counts s \<noteq> []" by auto
      have w: "em_while m s = em_while m s'" using True Inr by (simp add: em_while.simps [of m s])
      from "1.IH" [OF True Inr w' a] show ?thesis
        unfolding w h n e js using ne by auto
    qed
  qed
qed

lemma RunEM_first_pass:
  assumes "fl_gt PInf eps"
  shows "RunEM m hs n a0 b0 eps =
     (case em_body m (em_init hs n a0 b0 eps) of Inl e \<Rightarrow> Inl e | Inr s' \<Rightarrow> em_while m s')"
  using assms by (simp add: RunEM_def em_while.simps [of m "em_init hs n a0 b0 eps"])

lemma RunEM_no_pass:
  assumes "\<not> fl_gt PInf eps"
  shows "RunEM m hs n a0 b0 eps = Inr (em_init hs n a0 b0 eps)"
  using assms by (simp add: RunEM_def em_while.simps [of m "em_init hs n a0 b0 eps"])

lemma RunEM_outcomes:
  "(\<exists>s. RunEM m hs n a0 b0 eps = Inr s \<and> j s = 0 \<and> (eps = PInf \<or> eps = NaN))
   \<or> (\<exists>s. RunEM m hs n a0 b0 eps = Inr s \<and> 1 \<le> j s \<and> j s \<le> 99 \<and> hs \<noteq> []
          \<and> (improvement s = NaN
              \<or> (\<exists>d e. improvement s = Fin d \<and> eps = Fin e \<and> 0 \<le> d \<and> d \<le> e)))
   \<or> (\<exists>s. RunEM m hs n a0 b0 eps = Inl (IndexError, s) \<and> j s = 99 \<and> hs \<noteq> [])
   \<or> (\<exists>s. RunEM m hs n a0 b0 eps = Inl (OverflowError, s) \<and> j s \<le> 99
          \<and> (\<exists>h\<in>set hs. overflows n h))
   \<or> (\<exists>s. RunEM m hs n a0 b0 eps = Inl (TypeError, s) \<and> j s = 0 \<and> hs = [])"
proof (cases "fl_gt PInf eps")
  case False
  then have "eps = PInf \<or> eps = NaN" by (simp add: fl_gt_PInf)
  then show ?thesis using RunEM_no_pass [OF False, of m hs n a0 b0] by simp
next
  case True
  let ?s0 = "em_init hs n a0 b0 eps"
  have w0: "wf_state ?s0" by (rule wf_em_init)
  note ob = em_body_outcomes [OF w0, of m]
  note r = RunEM_first_pass [OF True, of m hs n a0 b0]
  show ?thesis
  proof (cases "em_body m ?s0")
    case (Inl es)
    obtain e s' where es: "es = (e, s')" by (cases es)
    have w: "RunEM m hs n a0 b0 eps = Inl (e, s')" using Inl es by (simp add: r)
    have js: "j s' = 0" using em_body_frame_err [OF Inl [unfolded es]] by simp
    show ?thesis using ob Inl es w js by auto
  next
    case (Inr s1)
    from ob Inr have w1: "wf_state s1" and js: "j s1 = 1"
      and h: "head_counts s1 = hs" and n: "num_coin_toss s1 = n"
      and e: "epsilon s1 = eps" and a: "abs_like (improvement s1)"
      and ne: "hs \<noteq> []" by auto
    have w: "RunEM m hs n a0 b0 eps = em_while m s1" using Inr by (simp add: r)
    from em_while_outcomes [OF w1 a, of m]
    show ?thesis
      unfolding w h n e js using ne abs_like_exit [OF _ _ True] by (elim disjE exE conjE) auto
  qed
qed

text \<open>A run that computes without rounding: 5 heads in 10 tosses from the biases \<open>(1/2, 1/2)\<close>.\<close>

lemma choose_10_9: "(10::nat) choose 9 = 10"
  by (simp add: eval_nat_numeral)

lemma choose_10_2: "(10::nat) choose 2 = 45"
  by (simp add: eval_nat_numeral)

lemma fl_exact_small: "\<bar>z\<bar> \<le> 1000 \<Longrightarrow> fl exact_machine z = Fin z"
proof -
  assume "\<bar>z\<bar> \<le> 1000"
  moreover have "(1000::real) < real float_limit"
  proof -
    have "(1000::nat) < float_limit" by (simp add: float_limit_def)
    then show ?thesis by (metis of_nat_less_iff of_nat_numeral)
  qed
  ultimately show ?thesis by (intro fl_exact) linarith
qed

lemma lik_value_half:
  "lik_value exact_machine 9 10 (Fin (1/2)) = Fin (10/1024)"
  "lik_value exact_machine 2 10 (Fin (1/2)) = Fin (45/1024)"
  "lik_value exact_machine 5 10 (Fin (1/2)) = Fin (252/1024)"
  using lik_value_exact [of 9 10 "1/2"] lik_value_exact [of 2 10 "1/2"] lik_value_exact [of 5 10 "1/2"]
  by (simp_all add: choose_10_9 choose_10_2 choose_10_5 power_one_over float_limit_def)

lemma np_sum_flat_exact: "np_sum_flat exact_machine = foldl fl_add (Fin 0)"
  by (simp add: exact_machine_def)

lemma run_half_half:
  "\<exists>s. RunEM exact_machine [5] 10 (Fin (1/2)) (Fin (1/2)) (Fin (1/1000)) = Inr s
      \<and> theta_A s = Some (Fin (1/2)) \<and> theta_B s = Some (Fin (1/2))"
proof -
  let ?m = exact_machine
  let ?s0 = "em_init [5] 10 (Fin (1/2)) (Fin (1/2)) (Fin (1/1000))"
  have w0: "wf_state ?s0" by (rule wf_em_init)
  have h0: "head_counts ?s0 \<noteq> []" by simp
  have lt: "j ?s0 + 1 < 100" by simp
  have o: "\<forall>h\<in>set (head_counts ?s0). \<not> overflows (num_coin_toss ?s0) h"
    by (simp add: not_overflows_small)
  have rA: "rowsA ?m ?s0 = [(Fin (5/2), Fin (5/2))]"
    by (simp add: rowsA_def rowA_def weightA_def lA_of_def lB_of_def lik_value_half scale_row_def
        fl_exact_small)
  have rB: "rowsB ?m ?s0 = [(Fin (5/2), Fin (5/2))]"
    by (simp add: rowsB_def rowB_def weightB_def lA_of_def lB_of_def lik_value_half scale_row_def
        fl_exact_small)
  have mA: "m_step ?m (rowsA ?m ?s0) = Fin (1/2)"
    by (simp add: rA m_step_def py_sum_rows_def py_sum_row_def row_add_def zero_row_def fl_exact_small)
  have mB: "m_step ?m (rowsB ?m ?s0) = Fin (1/2)"
    by (simp add: rB m_step_def py_sum_rows_def py_sum_row_def row_add_def zero_row_def fl_exact_small)
  have nA: "np_sum ?m (rowsA ?m ?s0) = Fin 5" "np_sum ?m (rowsB ?m ?s0) = Fin 5"
    by (simp_all add: rA rB np_sum_def np_sum_flat_exact)
  have xA: "fst (np_sum_axis0 ?m (rowsA ?m ?s0)) = Fin (5/2)" "fst (np_sum_axis0 ?m (rowsB ?m ?s0)) = Fin (5/2)"
    by (simp_all add: rA rB np_sum_axis0_def row_add_def zero_row_def)
  from em_body_wf [OF w0 h0 lt o, of ?m] obtain s1 where
    b: "em_body ?m ?s0 = Inr s1"
    and tA: "theta_A s1 = Some (fp_div ?m (fst (np_sum_axis0 ?m (rowsA ?m ?s0))) (np_sum ?m (rowsA ?m ?s0)))"
    and tB: "theta_B s1 = Some (fp_div ?m (fst (np_sum_axis0 ?m (rowsB ?m ?s0))) (np_sum ?m (rowsB ?m ?s0)))"
    and i: "improvement s1 = new_improvement ?m ?s0" and e: "epsilon s1 = epsilon ?s0" by blast
  have i1: "improvement s1 = Fin 0"
    by (simp add: i new_improvement_def mA mB py_max2_def fp_sub_def)
  have r: "RunEM ?m [5] 10 (Fin (1/2)) (Fin (1/2)) (Fin (1/1000)) = Inr s1"
    using b i1 e by (simp add: RunEM_first_pass em_while.simps [of ?m s1])
  show ?thesis unfolding r using tA tB by (simp add: nA xA fl_exact_small)
qed

text \<open>
  Claim C2, as amended. For every dataset, every pair of initial biases and every float
  \<open>epsilon\<close>, a run ends within 100 passes of the loop, in one of five ways:
  \<^item> it returns at once, without a pass, when \<open>epsilon\<close> is \<open>inf\<close> or \<open>nan\<close>;
  \<^item> it returns after 1 to 99 passes, because the loop test \<open>improvement > epsilon\<close> is
    false: the improvement is at most \<open>epsilon\<close>, or it is \<open>nan\<close>;
  \<^item> the 100th pass raises \<open>IndexError\<close> when it writes entry 100 of the 100-entry array
    \<open>pA_heads\<close>;
  \<^item> a pass raises \<open>OverflowError\<close>, and some experiment has a binomial coefficient too
    large to be converted to a float;
  \<^item> the first pass raises \<open>TypeError\<close>, and the dataset has no experiment.

  On a dataset with no experiment the first pass does raise \<open>TypeError\<close>, unless
  \<open>epsilon\<close> is \<open>inf\<close> or \<open>nan\<close>.
\<close>

theorem RunEM_terminates:
  "((\<exists>s. RunEM m hs n a0 b0 eps = Inr s \<and> j s = 0 \<and> (eps = PInf \<or> eps = NaN))
    \<or> (\<exists>s. RunEM m hs n a0 b0 eps = Inr s \<and> 1 \<le> j s \<and> j s \<le> 99 \<and> hs \<noteq> []
           \<and> (improvement s = NaN
               \<or> (\<exists>d e. improvement s = Fin d \<and> eps = Fin e \<and> 0 \<le> d \<and> d \<le> e)))
    \<or> (\<exists>s. RunEM m hs n a0 b0 eps = Inl (IndexError, s) \<and> j s = 99 \<and> hs \<noteq> [])
    \<or> (\<exists>s. RunEM m hs n a0 b0 eps = Inl (OverflowError, s) \<and> j s \<le> 99
           \<and> (\<exists>h\<in>set hs. overflows n h))
    \<or> (\<exists>s. RunEM m hs n a0 b0 eps = Inl (TypeError, s) \<and> j s = 0 \<and> hs = []))
   \<and> (hs = [] \<and> eps \<noteq> PInf \<and> eps \<noteq> NaN
        \<longrightarrow> (\<exists>s. RunEM m hs n a0 b0 eps = Inl (TypeError, s) \<and> j s = 0))"
proof -
  note o = RunEM_outcomes [of m hs n a0 b0 eps]
  have "\<exists>s. RunEM m hs n a0 b0 eps = Inl (TypeError, s) \<and> j s = 0"
    if "hs = []" "eps \<noteq> PInf" "eps \<noteq> NaN"
    using o that by auto
  then show ?thesis using o by blast
qed

theorem RunEM_terminates_witness:
  "(\<exists>s. RunEM exact_machine [5] 10 (Fin (1/2)) (Fin (1/2)) (Fin (1/1000)) = Inr s
        \<and> 1 \<le> j s \<and> j s \<le> 99
        \<and> (improvement s = NaN \<or> (\<exists>d. improvement s = Fin d \<and> 0 \<le> d \<and> d \<le> 1/1000)))
   \<and> (\<exists>s. RunEM exact_machine [] 10 (Fin (1/2)) (Fin (1/2)) (Fin (1/1000)) = Inl (TypeError, s)
        \<and> j s = 0)"
proof -
  from run_half_half obtain s0 where
    r: "RunEM exact_machine [5] 10 (Fin (1/2)) (Fin (1/2)) (Fin (1/1000)) = Inr s0" by blast
  from RunEM_terminates [of exact_machine "[5]" 10 "Fin (1/2)" "Fin (1/2)" "Fin (1/1000)"]
  have 1: "1 \<le> j s0 \<and> j s0 \<le> 99
        \<and> (improvement s0 = NaN \<or> (\<exists>d. improvement s0 = Fin d \<and> 0 \<le> d \<and> d \<le> 1/1000))"
    unfolding r by auto
  from RunEM_terminates [of exact_machine "[]" 10 "Fin (1/2)" "Fin (1/2)" "Fin (1/1000)"]
  have 2: "\<exists>s. RunEM exact_machine [] 10 (Fin (1/2)) (Fin (1/2)) (Fin (1/1000)) = Inl (TypeError, s)
        \<and> j s = 0"
    by simp
  from r 1 2 show ?thesis by simp
qed

subsection \<open>Zero likelihoods\<close>

lemma fl_add_NaN_right [simp]: "fl_add x NaN = NaN"
  by (cases x) simp_all

lemma fl_mul_NaN_right [simp]: "fl_mul x NaN = NaN"
  by (cases x) simp_all

lemma fl_div_NaN_right [simp]: "fl_div x NaN = NaN"
  by (cases x) simp_all

lemma fp_add_NaN [simp]: "fp_add m NaN y = NaN" "fp_add m x NaN = NaN"
  by (cases y; simp) (cases x; simp)

lemma fp_mul_NaN [simp]: "fp_mul m NaN y = NaN" "fp_mul m x NaN = NaN"
  by (cases y; simp) (cases x; simp)

lemma fp_div_NaN [simp]: "fp_div m NaN y = NaN" "fp_div m x NaN = NaN"
  by (cases y; simp) (cases x; simp)

lemma fp_sub_NaN_left [simp]: "fp_sub m NaN y = NaN"
  by (simp add: fp_sub_def)

lemma fp_add_zero_left [simp]: "fp_add m (Fin 0) y = y"
  by (cases y) simp_all

lemma row_add_NaN [simp]:
  "row_add m (NaN, NaN) r = (NaN, NaN)" "row_add m r (NaN, NaN) = (NaN, NaN)"
  by (simp_all add: row_add_def)

lemma foldl_row_add_NaN: "foldl (row_add m) (NaN, NaN) rows = (NaN, NaN)"
  by (induction rows) simp_all

lemma foldl_row_add_has_NaN: "(NaN, NaN) \<in> set rows \<Longrightarrow> foldl (row_add m) a rows = (NaN, NaN)"
proof (induction rows arbitrary: a)
  case Nil
  then show ?case by simp
next
  case (Cons r rows)
  show ?case
  proof (cases "r = (NaN, NaN)")
    case True
    then show ?thesis by (simp add: foldl_row_add_NaN)
  next
    case False
    then show ?thesis using Cons by simp
  qed
qed

lemma m_step_has_NaN: "(NaN, NaN) \<in> set rows \<Longrightarrow> m_step m rows = NaN"
  by (simp add: m_step_def py_sum_rows_def foldl_row_add_has_NaN)

lemma theta_has_NaN:
  "(NaN, NaN) \<in> set rows \<Longrightarrow> fp_div m (fst (np_sum_axis0 m rows)) (np_sum m rows) = NaN"
  by (simp add: np_sum_axis0_def foldl_row_add_has_NaN)

lemma zero_likelihoods_rows:
  assumes "i < length (head_counts s)" and "lA_of m s i = Fin 0" and "lB_of m s i = Fin 0"
  shows "rowsA m s ! i = (NaN, NaN)" and "rowsB m s ! i = (NaN, NaN)"
    and "(NaN, NaN) \<in> set (rowsA m s)" and "(NaN, NaN) \<in> set (rowsB m s)"
proof -
  have a: "rowA m s i = (NaN, NaN)" using assms(2,3)
    by (simp add: rowA_def weightA_def scale_row_def)
  have b: "rowB m s i = (NaN, NaN)" using assms(2,3)
    by (simp add: rowB_def weightB_def scale_row_def)
  show "rowsA m s ! i = (NaN, NaN)" unfolding rowsA_def using assms(1) a by simp
  show "rowsB m s ! i = (NaN, NaN)" unfolding rowsB_def using assms(1) b by simp
  have "rowA m s i \<in> set (rowsA m s)" unfolding rowsA_def using assms(1) by simp
  then show "(NaN, NaN) \<in> set (rowsA m s)" by (simp add: a)
  have "rowB m s i \<in> set (rowsB m s)" unfolding rowsB_def using assms(1) by simp
  then show "(NaN, NaN) \<in> set (rowsB m s)" by (simp add: b)
qed

lemma em_while_nan_pass:
  assumes "wf_state s" and "j s + 1 < 100" and "fl_gt (improvement s) (epsilon s)"
    and "\<forall>h\<in>set (head_counts s). \<not> overflows (num_coin_toss s) h"
    and "i < length (head_counts s)"
    and "compute_likelihood m (head_counts s ! i) (num_coin_toss s) (pA_heads s ! j s) = Inr (Fin 0)"
    and "compute_likelihood m (head_counts s ! i) (num_coin_toss s) (pB_heads s ! j s) = Inr (Fin 0)"
  shows "\<exists>s'. em_while m s = Inr s' \<and> j s' = j s + 1
           \<and> expectation_A s' ! i = (NaN, NaN) \<and> expectation_B s' ! i = (NaN, NaN)
           \<and> pA_heads s' ! (j s + 1) = NaN \<and> pB_heads s' ! (j s + 1) = NaN
           \<and> theta_A s' = Some NaN \<and> theta_B s' = Some NaN \<and> improvement s' = NaN"
proof -
  have ne: "head_counts s \<noteq> []" using assms(5) by auto
  have la: "lA_of m s i = Fin 0" using assms(6)
    by (simp add: compute_likelihood_cases lA_of_def split: if_splits)
  have lb: "lB_of m s i = Fin 0" using assms(7)
    by (simp add: compute_likelihood_cases lB_of_def split: if_splits)
  note z = zero_likelihoods_rows [OF assms(5) la lb]
  from em_body_wf [OF assms(1) ne assms(2,4), of m] obtain s' where
    b: "em_body m s = Inr s'" and js: "j s' = j s + 1"
    and eA: "expectation_A s' = rowsA m s" and eB: "expectation_B s' = rowsB m s"
    and pA: "pA_heads s' = (pA_heads s)[j s + 1 := m_step m (rowsA m s)]"
    and pB: "pB_heads s' = (pB_heads s)[j s + 1 := m_step m (rowsB m s)]"
    and tA: "theta_A s' = Some (fp_div m (fst (np_sum_axis0 m (rowsA m s))) (np_sum m (rowsA m s)))"
    and tB: "theta_B s' = Some (fp_div m (fst (np_sum_axis0 m (rowsB m s))) (np_sum m (rowsB m s)))"
    and i: "improvement s' = new_improvement m s" by blast
  have len: "length (pA_heads s) = 100" "length (pB_heads s) = 100"
    using assms(1) by (simp_all add: wf_state_def)
  have i1: "improvement s' = NaN"
    by (simp add: i new_improvement_def m_step_has_NaN [OF z(3)] m_step_has_NaN [OF z(4)] py_max2_def)
  have w: "em_while m s = Inr s'"
    using assms(3) b i1 by (simp add: em_while.simps [of m s] em_while.simps [of m s'])
  have "pA_heads s' ! (j s + 1) = NaN" using assms(2) len by (simp add: pA m_step_has_NaN [OF z(3)])
  moreover have "pB_heads s' ! (j s + 1) = NaN" using assms(2) len by (simp add: pB m_step_has_NaN [OF z(4)])
  moreover have "theta_A s' = Some NaN" by (simp add: tA theta_has_NaN [OF z(3)])
  moreover have "theta_B s' = Some NaN" by (simp add: tB theta_has_NaN [OF z(4)])
  ultimately show ?thesis using w js i1 eA eB z(1,2) by simp
qed

lemma not_overflows_10: "\<forall>h\<in>set hs. \<not> overflows 10 h"
  by (simp add: not_overflows_small)

lemma lik_5_10_0: "compute_likelihood m 5 10 (Fin 0) = Inr (Fin 0)"
  by (simp add: compute_likelihood_cases not_overflows_small lik_value_p0)

lemma lik_5_10_1: "compute_likelihood m 5 10 (Fin 1) = Inr (Fin 0)"
  by (simp add: compute_likelihood_cases not_overflows_small lik_value_p1)

lemma nan_run:
  assumes "compute_likelihood m h n a0 = Inr (Fin 0)" and "compute_likelihood m h n b0 = Inr (Fin 0)"
    and "\<not> overflows n h"
  shows "\<exists>s'. RunEM m [h] n a0 b0 (Fin (1/1000)) = Inr s' \<and> j s' = 1
           \<and> pA_heads s' ! 1 = NaN \<and> pB_heads s' ! 1 = NaN
           \<and> theta_A s' = Some NaN \<and> theta_B s' = Some NaN \<and> improvement s' = NaN"
proof -
  let ?s0 = "em_init [h] n a0 b0 (Fin (1/1000))"
  have w: "wf_state ?s0" by (rule wf_em_init)
  have lt: "j ?s0 + 1 < 100" by simp
  have g: "fl_gt (improvement ?s0) (epsilon ?s0)" by simp
  have o: "\<forall>x\<in>set (head_counts ?s0). \<not> overflows (num_coin_toss ?s0) x" using assms(3) by simp
  have i: "0 < length (head_counts ?s0)" by simp
  have a: "compute_likelihood m (head_counts ?s0 ! 0) (num_coin_toss ?s0) (pA_heads ?s0 ! j ?s0)
             = Inr (Fin 0)" using assms(1) by simp
  have b: "compute_likelihood m (head_counts ?s0 ! 0) (num_coin_toss ?s0) (pB_heads ?s0 ! j ?s0)
             = Inr (Fin 0)" using assms(2) by simp
  from em_while_nan_pass [OF w lt g o i a b] show ?thesis
    by (auto simp: RunEM_def)
qed

lemma em_body_overflow_first:
  assumes "wf_state s" and "head_counts s \<noteq> []"
    and "overflows (num_coin_toss s) (head_counts s ! 0)"
  shows "\<exists>s'. em_body m s = Inl (OverflowError, s')"
proof -
  let ?N = "length (head_counts s)"
  have n: "min (length (head_counts s)) (length (tail_counts s)) = ?N" "num_exp s = ?N"
    using assms(1) by (simp_all add: wf_state_def)
  have jr: "j s < length (pA_heads s)" using assms(1) by (simp add: wf_state_def)
  have u: "[0..<?N] = 0 # [1..<?N]" using assms(2) by (simp add: upt_conv_Cons)
  have "\<exists>ex. e_step m s [0..<?N] (replicate ?N zero_row, replicate ?N zero_row) = Inl (OverflowError, ex)"
    unfolding u using jr assms(3) by (simp add: Let_def compute_likelihood_cases)
  then show ?thesis by (auto simp: em_body_def n)
qed

lemma em_body_no_rows:
  assumes "wf_state s" and "head_counts s = []"
  shows "\<exists>s'. em_body m s = Inl (TypeError, s')"
  using assms by (simp add: em_body_def wf_state_def Let_def)

text \<open>
  Claim C2 fails as stated in three ways. With both biases at 1 and 5 heads in 10 tosses the
  run returns after one pass with an improvement that is \<open>nan\<close>: the threshold is not
  met and no exception is raised. On a dataset with no experiment the first pass raises
  \<open>TypeError\<close>, because \<open>sum\<close> of an array with no row is the integer 0. With 515 heads
  in 1030 tosses the first pass raises \<open>OverflowError\<close>.
\<close>

theorem RunEM_terminates_counterexample:
  "\<not> isl (RunEM exact_machine [5] 10 (Fin 1) (Fin 1) (Fin (1/1000)))
   \<and> improvement (projr (RunEM exact_machine [5] 10 (Fin 1) (Fin 1) (Fin (1/1000)))) = NaN
   \<and> isl (RunEM exact_machine [] 10 (Fin (1/2)) (Fin (1/2)) (Fin (1/1000)))
   \<and> fst (projl (RunEM exact_machine [] 10 (Fin (1/2)) (Fin (1/2)) (Fin (1/1000)))) = TypeError
   \<and> isl (RunEM exact_machine [515] 1030 (Fin (1/2)) (Fin (1/2)) (Fin (1/1000)))
   \<and> fst (projl (RunEM exact_machine [515] 1030 (Fin (1/2)) (Fin (1/2)) (Fin (1/1000)))) = OverflowError"
proof -
  let ?m = exact_machine
  from nan_run [OF lik_5_10_1 lik_5_10_1, of ?m] obtain s' where
    "RunEM ?m [5] 10 (Fin 1) (Fin 1) (Fin (1/1000)) = Inr s'" "improvement s' = NaN"
    using not_overflows_small [of 10 5] by auto
  then have 1: "\<not> isl (RunEM ?m [5] 10 (Fin 1) (Fin 1) (Fin (1/1000)))
     \<and> improvement (projr (RunEM ?m [5] 10 (Fin 1) (Fin 1) (Fin (1/1000)))) = NaN"
    by simp
  have g: "fl_gt PInf (Fin (1/1000))" by simp
  let ?e0 = "em_init [] 10 (Fin (1/2)) (Fin (1/2)) (Fin (1/1000))"
  have "wf_state ?e0" by (rule wf_em_init)
  moreover have "head_counts ?e0 = []" by simp
  ultimately obtain s'' where "em_body ?m ?e0 = Inl (TypeError, s'')"
    using em_body_no_rows by blast
  then have 2: "isl (RunEM ?m [] 10 (Fin (1/2)) (Fin (1/2)) (Fin (1/1000)))
     \<and> fst (projl (RunEM ?m [] 10 (Fin (1/2)) (Fin (1/2)) (Fin (1/1000)))) = TypeError"
    by (simp add: RunEM_first_pass [OF g])
  let ?o0 = "em_init [515] 1030 (Fin (1/2)) (Fin (1/2)) (Fin (1/1000))"
  have "wf_state ?o0" by (rule wf_em_init)
  moreover have "head_counts ?o0 \<noteq> []" by simp
  moreover have "overflows (num_coin_toss ?o0) (head_counts ?o0 ! 0)"
    by (simp add: overflows_1030_515)
  ultimately obtain s3 where "em_body ?m ?o0 = Inl (OverflowError, s3)"
    using em_body_overflow_first by blast
  then have 3: "isl (RunEM ?m [515] 1030 (Fin (1/2)) (Fin (1/2)) (Fin (1/1000)))
     \<and> fst (projl (RunEM ?m [515] 1030 (Fin (1/2)) (Fin (1/2)) (Fin (1/1000)))) = OverflowError"
    by (simp add: RunEM_first_pass [OF g])
  from 1 2 3 show ?thesis by simp
qed

text \<open>
  Claim C1, as amended. When in a pass of the loop (before the 100th; no more heads than
  tosses and fewer than \<open>2^53\<close> tosses in an experiment; no binomial coefficient of the
  dataset too large for a float) both likelihoods of some experiment are the float 0, no
  exception is raised: both weights of that experiment are \<open>0/0 = nan\<close>, so its rows of
  the two expectation arrays are \<open>nan\<close>; the pass sets both biases to \<open>nan\<close>, the
  improvement is \<open>nan\<close>, the loop test is false and the run returns that state. This
  holds whatever the rounding of the machine, and whether a likelihood is 0 by a bias of
  0 or 1 or by underflow.
\<close>

theorem zero_likelihoods_give_nan:
  assumes "wf_state s" and "j s + 1 < 100" and "fl_gt (improvement s) (epsilon s)"
    and "num_coin_toss s < 2 ^ 53"
    and "\<forall>h\<in>set (head_counts s). h \<le> num_coin_toss s \<and> \<not> overflows (num_coin_toss s) h"
    and "i < length (head_counts s)"
    and "compute_likelihood m (head_counts s ! i) (num_coin_toss s) (pA_heads s ! j s) = Inr (Fin 0)"
    and "compute_likelihood m (head_counts s ! i) (num_coin_toss s) (pB_heads s ! j s) = Inr (Fin 0)"
  shows "\<exists>s'. em_while m s = Inr s' \<and> j s' = j s + 1
           \<and> expectation_A s' ! i = (NaN, NaN) \<and> expectation_B s' ! i = (NaN, NaN)
           \<and> pA_heads s' ! (j s + 1) = NaN \<and> pB_heads s' ! (j s + 1) = NaN
           \<and> theta_A s' = Some NaN \<and> theta_B s' = Some NaN \<and> improvement s' = NaN"
proof -
  have "\<forall>h\<in>set (head_counts s). \<not> overflows (num_coin_toss s) h" using assms(5) by simp
  from em_while_nan_pass [OF assms(1,2,3) this assms(6,7,8)] show ?thesis .
qed

theorem zero_likelihoods_give_nan_witness:
  "wf_state (em_init [5] 10 (Fin 0) (Fin 0) (Fin (1/1000)))
   \<and> compute_likelihood exact_machine 5 10 (Fin 0) = Inr (Fin 0)
   \<and> (\<exists>s'. RunEM exact_machine [5] 10 (Fin 0) (Fin 0) (Fin (1/1000)) = Inr s' \<and> j s' = 1
           \<and> expectation_A s' ! 0 = (NaN, NaN) \<and> expectation_B s' ! 0 = (NaN, NaN)
           \<and> pA_heads s' ! 1 = NaN \<and> pB_heads s' ! 1 = NaN
           \<and> theta_A s' = Some NaN \<and> theta_B s' = Some NaN \<and> improvement s' = NaN)
   \<and> compute_likelihood underflow_machine 300 300 (Fin (1/16)) = Inr (Fin 0)
   \<and> (\<exists>s'. RunEM underflow_machine [300] 300 (Fin (1/16)) (Fin (1/16)) (Fin (1/1000)) = Inr s'
           \<and> j s' = 1 \<and> pA_heads s' ! 1 = NaN \<and> pB_heads s' ! 1 = NaN
           \<and> theta_A s' = Some NaN \<and> theta_B s' = Some NaN \<and> improvement s' = NaN)"
proof -
  let ?m = exact_machine
  let ?s0 = "em_init [5] 10 (Fin 0) (Fin 0) (Fin (1/1000))"
  have w: "wf_state ?s0" by (rule wf_em_init)
  have lt: "j ?s0 + 1 < 100" by simp
  have g: "fl_gt (improvement ?s0) (epsilon ?s0)" by simp
  have n: "num_coin_toss ?s0 < 2 ^ 53" by simp
  have o: "\<forall>h\<in>set (head_counts ?s0). h \<le> num_coin_toss ?s0 \<and> \<not> overflows (num_coin_toss ?s0) h"
    by (simp add: not_overflows_small)
  have i: "0 < length (head_counts ?s0)" by simp
  have a: "compute_likelihood ?m (head_counts ?s0 ! 0) (num_coin_toss ?s0) (pA_heads ?s0 ! j ?s0)
             = Inr (Fin 0)" by (simp add: lik_5_10_0)
  have b: "compute_likelihood ?m (head_counts ?s0 ! 0) (num_coin_toss ?s0) (pB_heads ?s0 ! j ?s0)
             = Inr (Fin 0)" by (simp add: lik_5_10_0)
  from zero_likelihoods_give_nan [OF w lt g n o i a b]
  have 1: "\<exists>s'. RunEM ?m [5] 10 (Fin 0) (Fin 0) (Fin (1/1000)) = Inr s' \<and> j s' = 1
           \<and> expectation_A s' ! 0 = (NaN, NaN) \<and> expectation_B s' ! 0 = (NaN, NaN)
           \<and> pA_heads s' ! 1 = NaN \<and> pB_heads s' ! 1 = NaN
           \<and> theta_A s' = Some NaN \<and> theta_B s' = Some NaN \<and> improvement s' = NaN"
    by (auto simp: RunEM_def)
  let ?um = underflow_machine
  let ?init = "em_init [300] 300 (Fin (1/16)) (Fin (1/16)) (Fin (1/1000))"
  have uw: "wf_state ?init" by (rule wf_em_init)
  have ult: "j ?init + 1 < 100" by simp
  have ug: "fl_gt (improvement ?init) (epsilon ?init)" by simp
  have un: "num_coin_toss ?init < 2 ^ 53" by simp
  have uo: "\<forall>h\<in>set (head_counts ?init). h \<le> num_coin_toss ?init \<and> \<not> overflows (num_coin_toss ?init) h"
    by (simp add: not_overflows_small)
  have ui: "0 < length (head_counts ?init)" by simp
  have ua: "compute_likelihood ?um (head_counts ?init ! 0) (num_coin_toss ?init) (pA_heads ?init ! j ?init)
             = Inr (Fin 0)" by (simp add: compute_likelihood_300_underflow)
  have ub: "compute_likelihood ?um (head_counts ?init ! 0) (num_coin_toss ?init) (pB_heads ?init ! j ?init)
             = Inr (Fin 0)" by (simp add: compute_likelihood_300_underflow)
  from zero_likelihoods_give_nan [OF uw ult ug un uo ui ua ub]
  have 2: "\<exists>s'. RunEM ?um [300] 300 (Fin (1/16)) (Fin (1/16)) (Fin (1/1000)) = Inr s'
           \<and> j s' = 1 \<and> pA_heads s' ! 1 = NaN \<and> pB_heads s' ! 1 = NaN
           \<and> theta_A s' = Some NaN \<and> theta_B s' = Some NaN \<and> improvement s' = NaN"
    by (auto simp: RunEM_def)
  from 1 2 w lik_5_10_0 [of ?m] compute_likelihood_300_underflow show ?thesis by simp
qed

text \<open>
  Claim C1 fails as stated: with both biases at 0 and 5 heads in 10 tosses both likelihoods
  are 0, the weights are \<open>0/0 = nan\<close>, and the run returns \<open>nan\<close> for both biases; no
  exception is raised.
\<close>

theorem RunEM_zero_likelihoods_counterexample:
  "\<not> isl (RunEM exact_machine [5] 10 (Fin 0) (Fin 0) (Fin (1/1000)))
   \<and> theta_A (projr (RunEM exact_machine [5] 10 (Fin 0) (Fin 0) (Fin (1/1000)))) = Some NaN
   \<and> theta_B (projr (RunEM exact_machine [5] 10 (Fin 0) (Fin 0) (Fin (1/1000)))) = Some NaN
   \<and> improvement (projr (RunEM exact_machine [5] 10 (Fin 0) (Fin 0) (Fin (1/1000)))) = NaN"
proof -
  from nan_run [OF lik_5_10_0 lik_5_10_0, of exact_machine] obtain s' where
    "RunEM exact_machine [5] 10 (Fin 0) (Fin 0) (Fin (1/1000)) = Inr s'"
    "theta_A s' = Some NaN" "theta_B s' = Some NaN" "improvement s' = NaN"
    using not_overflows_small [of 10 5] by auto
  then show ?thesis by simp
qed

subsection \<open>The estimate from complete data\<close>

lemma experiments_from_MLE_A:
  "MLE_A (experiments_from i ds s) =
     foldl py_add_np (MLE_A s) (map (\<lambda>d. Fin (real (snd d))) (filter (\<lambda>d. fst d = 0) ds))"
  by (induction ds arbitrary: i s) (simp_all add: one_experiment_def)

lemma experiments_from_MLE_B:
  "MLE_B (experiments_from i ds s) =
     foldl py_add_np (MLE_B s) (map (\<lambda>d. Fin (real (snd d))) (filter (\<lambda>d. fst d \<noteq> 0) ds))"
  by (induction ds arbitrary: i s) (simp_all add: one_experiment_def)

lemma foldl_py_add_np_Np:
  "foldl py_add_np (NpFloat (Fin x)) (map (\<lambda>d. Fin (real (snd d))) ds) =
     NpFloat (Fin (x + real (sum_list (map snd ds))))"
  by (induction ds arbitrary: x) (simp_all add: add.assoc)

lemma foldl_py_add_np_Py:
  assumes "ds \<noteq> []"
  shows "foldl py_add_np (PyFloat 0) (map (\<lambda>d. Fin (real (snd d))) ds) =
     NpFloat (Fin (real (sum_list (map snd ds))))"
  using assms by (cases ds) (simp_all add: foldl_py_add_np_Np)

lemma count_nonzero_update:
  "i < length xs \<Longrightarrow> xs ! i = 0 \<Longrightarrow> count_nonzero (xs[i := 1]) = Suc (count_nonzero xs)"
proof (induction xs arbitrary: i)
  case Nil
  then show ?case by simp
next
  case (Cons x xs)
  then show ?case by (cases i) (simp_all add: count_nonzero_def)
qed

lemma experiments_from_coin_choice:
  assumes "i + length ds \<le> length (coin_choice s)"
    and "\<forall>k. i \<le> k \<and> k < length (coin_choice s) \<longrightarrow> coin_choice s ! k = 0"
  shows "count_nonzero (coin_choice (experiments_from i ds s)) =
     count_nonzero (coin_choice s) + length (filter (\<lambda>d. fst d \<noteq> 0) ds)"
  using assms
proof (induction ds arbitrary: i s)
  case Nil
  then show ?case by simp
next
  case (Cons d ds)
  let ?s = "one_experiment i d s"
  have len: "length (coin_choice ?s) = length (coin_choice s)"
    by (simp add: one_experiment_def)
  have 1: "Suc i + length ds \<le> length (coin_choice ?s)" using Cons.prems(1) len by simp
  have 2: "\<forall>k. Suc i \<le> k \<and> k < length (coin_choice ?s) \<longrightarrow> coin_choice ?s ! k = 0"
    using Cons.prems(2) by (simp add: one_experiment_def)
  have i: "i < length (coin_choice s)" "coin_choice s ! i = 0"
    using Cons.prems by simp_all
  have c: "count_nonzero (coin_choice ?s) = count_nonzero (coin_choice s) + (if fst d = 0 then 0 else 1)"
    using count_nonzero_update [OF i] by (simp add: one_experiment_def)
  show ?case using Cons.IH [OF 1 2] c by simp
qed

lemma generate_count:
  "count_nonzero (coin_choice (generate draws)) = length (filter (\<lambda>d. fst d \<noteq> 0) draws)"
  unfolding generate_def
  by (subst experiments_from_coin_choice) (simp_all add: count_nonzero_def)

lemma generate_MLE_A:
  "MLE_A (generate draws) =
     foldl py_add_np (PyFloat 0) (map (\<lambda>d. Fin (real (snd d))) (filter (\<lambda>d. fst d = 0) draws))"
  by (simp add: generate_def experiments_from_MLE_A)

lemma generate_MLE_B:
  "MLE_B (generate draws) =
     foldl py_add_np (PyFloat 0) (map (\<lambda>d. Fin (real (snd d))) (filter (\<lambda>d. fst d \<noteq> 0) draws))"
  by (simp add: generate_def experiments_from_MLE_B)

lemma length_filter_compl:
  "length (filter (\<lambda>d. fst d = 0) ds) + length (filter (\<lambda>d. fst d \<noteq> (0::nat)) ds) = length ds"
  using sum_length_filter_compl [of "\<lambda>d. fst d = 0" ds] by simp

text \<open>
  Claim C6. When both coins were selected at least once (and an experiment has at least
  one toss), the estimate of each bias is the number of heads in the experiments of that
  coin divided by the number of tosses in them. On three experiments of coin A with 9, 8
  and 7 heads and two of coin B with 1 and 2 heads, 10 tosses each, the estimates are
  \<open>24/30 = 4/5\<close> and \<open>3/20\<close>.
\<close>

theorem ComputeMLE_proportions:
  assumes "0 < n" and "\<exists>d\<in>set draws. fst d = 0" and "\<exists>d\<in>set draws. fst d \<noteq> 0"
  shows "ComputeMLE draws n =
     Inr (NpFloat (Fin (real (heads_of False draws) / real (tosses_of False draws n))),
          NpFloat (Fin (real (heads_of True draws) / real (tosses_of True draws n))))"
proof -
  let ?A = "filter (\<lambda>d. fst d = 0) draws" and ?B = "filter (\<lambda>d. fst d \<noteq> 0) draws"
  have neA: "?A \<noteq> []" using assms(2) by (simp add: filter_empty_conv)
  have neB: "?B \<noteq> []" using assms(3) by (simp add: filter_empty_conv)
  have mA: "MLE_A (generate draws) = NpFloat (Fin (real (sum_list (map snd ?A))))"
    unfolding generate_MLE_A by (rule foldl_py_add_np_Py [OF neA])
  have mB: "MLE_B (generate draws) = NpFloat (Fin (real (sum_list (map snd ?B))))"
    unfolding generate_MLE_B by (rule foldl_py_add_np_Py [OF neB])
  have cA: "int (length draws) - int (length ?B) = int (length ?A)"
    using length_filter_compl [of draws] by simp
  have lA: "0 < length ?A" using neA by simp
  have lB: "0 < length ?B" using neB by simp
  show ?thesis
    unfolding ComputeMLE_def Let_def generate_count mA mB cA
    using assms(1) lA lB
    by (simp add: heads_of_def tosses_of_def)
qed

theorem ComputeMLE_proportions_witness: "ComputeMLE [(0, 9), (0, 8), (0, 7), (1, 1), (1, 2)] 10
   = Inr (NpFloat (Fin (4/5)), NpFloat (Fin (3/20)))"
  using ComputeMLE_proportions [of 10 "[(0, 9), (0, 8), (0, 7), (1, 1), (1, 2)]"]
  by (simp add: heads_of_def tosses_of_def)

text \<open>
  Claim C7. When a coin was never selected, its count of heads is still the Python float
  \<open>0.0\<close> and its number of tosses the Python integer 0, and the division raises
  \<open>ZeroDivisionError\<close>: no estimate is returned.
\<close>

theorem ComputeMLE_never_selected:
  assumes "(\<forall>d\<in>set draws. fst d \<noteq> 0) \<or> (\<forall>d\<in>set draws. fst d = 0)"
  shows "ComputeMLE draws n = Inl ZeroDivisionError"
  using assms
proof
  assume a: "\<forall>d\<in>set draws. fst d \<noteq> 0"
  then have fA: "filter (\<lambda>d. fst d = 0) draws = []" by (simp add: filter_empty_conv)
  have mA: "MLE_A (generate draws) = PyFloat 0" unfolding generate_MLE_A fA by simp
  have fB: "filter (\<lambda>d. fst d \<noteq> 0) draws = draws" using a by simp
  have c: "count_nonzero (coin_choice (generate draws)) = length draws"
    unfolding generate_count fB by simp
  show ?thesis unfolding ComputeMLE_def Let_def mA c by simp
next
  assume b: "\<forall>d\<in>set draws. fst d = 0"
  then have fB: "filter (\<lambda>d. fst d \<noteq> 0) draws = []" by (simp add: filter_empty_conv)
  have mB: "MLE_B (generate draws) = PyFloat 0" unfolding generate_MLE_B fB by simp
  have c: "count_nonzero (coin_choice (generate draws)) = 0"
    unfolding generate_count fB by simp
  show ?thesis unfolding ComputeMLE_def Let_def mB c
    by (cases "MLE_A (generate draws)") simp_all
qed

theorem ComputeMLE_never_selected_witness:
  "ComputeMLE [(1, 3), (1, 4)] 10 = Inl ZeroDivisionError
   \<and> ComputeMLE [(0, 9), (0, 8), (0, 7)] 10 = Inl ZeroDivisionError"
  using ComputeMLE_never_selected [of "[(1, 3), (1, 4)]" 10]
        ComputeMLE_never_selected [of "[(0, 9), (0, 8), (0, 7)]" 10]
  by simp

subsection \<open>The M step\<close>

lemma foldl_row_add_components:
  "foldl (row_add m) a rows =
     (foldl (fp_add m) (fst a) (map fst rows), foldl (fp_add m) (snd a) (map snd rows))"
  by (induction rows arbitrary: a) (simp_all add: row_add_def)

lemma py_sum_rows_components:
  "py_sum_rows m rows = (fp_sum m (map fst rows), fp_sum m (map snd rows))"
  by (simp add: py_sum_rows_def zero_row_def fp_sum_def foldl_row_add_components)

lemma np_sum_axis0_components:
  "np_sum_axis0 m rows = (fp_sum m (map fst rows), fp_sum m (map snd rows))"
  by (simp add: np_sum_axis0_def zero_row_def fp_sum_def foldl_row_add_components)

lemma m_step_components:
  "m_step m rows =
     fp_div m (fp_sum m (map fst rows)) (fp_add m (fp_sum m (map fst rows)) (fp_sum m (map snd rows)))"
  by (simp add: m_step_def py_sum_rows_components py_sum_row_def)

lemma rowsA_fst: "map fst (rowsA m s) =
    map (\<lambda>i. fp_mul m (weightA m s i) (Fin (real (head_counts s ! i)))) [0..<length (head_counts s)]"
  by (simp add: rowsA_def rowA_def scale_row_def)

lemma rowsA_snd: "map snd (rowsA m s) =
    map (\<lambda>i. fp_mul m (weightA m s i) (Fin (real_of_int (tail_counts s ! i)))) [0..<length (head_counts s)]"
  by (simp add: rowsA_def rowA_def scale_row_def)

lemma rowsB_fst: "map fst (rowsB m s) =
    map (\<lambda>i. fp_mul m (weightB m s i) (Fin (real (head_counts s ! i)))) [0..<length (head_counts s)]"
  by (simp add: rowsB_def rowB_def scale_row_def)

lemma rowsB_snd: "map snd (rowsB m s) =
    map (\<lambda>i. fp_mul m (weightB m s i) (Fin (real_of_int (tail_counts s ! i)))) [0..<length (head_counts s)]"
  by (simp add: rowsB_def rowB_def scale_row_def)

lemma m_step_rowsA:
  "m_step m (rowsA m s) = fp_div m (expHeads_A m s) (fp_add m (expHeads_A m s) (expTails_A m s))"
  unfolding m_step_components rowsA_fst rowsA_snd expHeads_A_def expTails_A_def ..

lemma m_step_rowsB:
  "m_step m (rowsB m s) = fp_div m (expHeads_B m s) (fp_add m (expHeads_B m s) (expTails_B m s))"
  unfolding m_step_components rowsB_fst rowsB_snd expHeads_B_def expTails_B_def ..

lemma theta_rowsA:
  "fst (np_sum_axis0 m (rowsA m s)) = expHeads_A m s"
  unfolding np_sum_axis0_components rowsA_fst expHeads_A_def by simp

lemma theta_rowsB:
  "fst (np_sum_axis0 m (rowsB m s)) = expHeads_B m s"
  unfolding np_sum_axis0_components rowsB_fst expHeads_B_def by simp

lemma em_pass_formula:
  assumes "wf_state s" and "head_counts s \<noteq> []" and "j s + 1 < 100"
    and "\<forall>h\<in>set (head_counts s). \<not> overflows (num_coin_toss s) h"
  shows "\<exists>s'. em_body m s = Inr s' \<and> wf_state s' \<and> j s' = j s + 1
     \<and> pA_heads s' ! (j s + 1) = fp_div m (expHeads_A m s) (fp_add m (expHeads_A m s) (expTails_A m s))
     \<and> pB_heads s' ! (j s + 1) = fp_div m (expHeads_B m s) (fp_add m (expHeads_B m s) (expTails_B m s))
     \<and> theta_A s' = Some (fp_div m (expHeads_A m s) (np_sum m (expectation_A s')))
     \<and> theta_B s' = Some (fp_div m (expHeads_B m s) (np_sum m (expectation_B s')))"
proof -
  from em_body_wf [OF assms, of m] obtain s' where
    b: "em_body m s = Inr s'" and w: "wf_state s'" and js: "j s' = j s + 1"
    and eA: "expectation_A s' = rowsA m s" and eB: "expectation_B s' = rowsB m s"
    and pA: "pA_heads s' = (pA_heads s)[j s + 1 := m_step m (rowsA m s)]"
    and pB: "pB_heads s' = (pB_heads s)[j s + 1 := m_step m (rowsB m s)]"
    and tA: "theta_A s' = Some (fp_div m (fst (np_sum_axis0 m (rowsA m s))) (np_sum m (rowsA m s)))"
    and tB: "theta_B s' = Some (fp_div m (fst (np_sum_axis0 m (rowsB m s))) (np_sum m (rowsB m s)))"
    by blast
  have len: "length (pA_heads s) = 100" "length (pB_heads s) = 100"
    using assms(1) by (simp_all add: wf_state_def)
  have "pA_heads s' ! (j s + 1) = m_step m (rowsA m s)" using assms(3) len by (simp add: pA)
  moreover have "pB_heads s' ! (j s + 1) = m_step m (rowsB m s)" using assms(3) len by (simp add: pB)
  ultimately show ?thesis
    using b w js tA tB by (simp add: eA eB theta_rowsA theta_rowsB m_step_rowsA m_step_rowsB)
qed

text \<open>
  Claim C3. In every pass of the loop that completes (a dataset with an experiment, no
  more heads than tosses and fewer than \<open>2^53\<close> tosses in an experiment, no binomial
  coefficient too large for a float, before the 100th pass) the new bias of each coin,
  written to \<open>pA_heads[j+1]\<close> and \<open>pB_heads[j+1]\<close>, is
  \<open>expHeads / (expHeads + expTails)\<close>, where \<open>expHeads\<close> and \<open>expTails\<close> are the sums
  over the experiments, from the first to the last, of the coin's weight times the head
  count, and times the tail count. Every product, sum and quotient is rounded by the
  machine, whatever its rounding.
\<close>

theorem m_step_formula:
  assumes "wf_state s" and "head_counts s \<noteq> []" and "j s + 1 < 100"
    and "num_coin_toss s < 2 ^ 53"
    and "\<forall>h\<in>set (head_counts s). h \<le> num_coin_toss s \<and> \<not> overflows (num_coin_toss s) h"
  shows "\<exists>s'. em_body m s = Inr s'
     \<and> pA_heads s' ! (j s + 1) = fp_div m (expHeads_A m s) (fp_add m (expHeads_A m s) (expTails_A m s))
     \<and> pB_heads s' ! (j s + 1) = fp_div m (expHeads_B m s) (fp_add m (expHeads_B m s) (expTails_B m s))"
proof -
  have "\<forall>h\<in>set (head_counts s). \<not> overflows (num_coin_toss s) h" using assms(5) by simp
  from em_pass_formula [OF assms(1,2,3) this, of m] show ?thesis by blast
qed

theorem m_step_formula_witness:
  "wf_state (em_init [9, 2] 10 (Fin (1/2)) (Fin (1/2)) (Fin (1/1000)))
   \<and> expHeads_A exact_machine (em_init [9, 2] 10 (Fin (1/2)) (Fin (1/2)) (Fin (1/1000))) = Fin (11/2)
   \<and> expTails_A exact_machine (em_init [9, 2] 10 (Fin (1/2)) (Fin (1/2)) (Fin (1/1000))) = Fin (9/2)
   \<and> (\<exists>s'. em_body exact_machine (em_init [9, 2] 10 (Fin (1/2)) (Fin (1/2)) (Fin (1/1000))) = Inr s'
         \<and> pA_heads s' ! 1 = Fin (11/20) \<and> pB_heads s' ! 1 = Fin (11/20))"
proof -
  let ?m = exact_machine
  let ?s0 = "em_init [9, 2] 10 (Fin (1/2)) (Fin (1/2)) (Fin (1/1000))"
  have w: "wf_state ?s0" by (rule wf_em_init)
  have ne: "head_counts ?s0 \<noteq> []" by simp
  have lt: "j ?s0 + 1 < 100" by simp
  have n: "num_coin_toss ?s0 < 2 ^ 53" by simp
  have o: "\<forall>h\<in>set (head_counts ?s0). h \<le> num_coin_toss ?s0 \<and> \<not> overflows (num_coin_toss ?s0) h"
    by (simp add: not_overflows_small)
  have wA: "weightA ?m ?s0 0 = Fin (1/2)" "weightA ?m ?s0 (Suc 0) = Fin (1/2)"
    by (simp_all add: weightA_def lA_of_def lB_of_def lik_value_half fl_exact_small)
  have wB: "weightB ?m ?s0 0 = Fin (1/2)" "weightB ?m ?s0 (Suc 0) = Fin (1/2)"
    by (simp_all add: weightB_def lA_of_def lB_of_def lik_value_half fl_exact_small)
  have up: "[0..<2] = [0, Suc 0]" by (simp add: upt_rec)
  have hA: "expHeads_A ?m ?s0 = Fin (11/2)"
    by (simp add: expHeads_A_def fp_sum_def up wA fl_exact_small)
  have tA: "expTails_A ?m ?s0 = Fin (9/2)"
    by (simp add: expTails_A_def fp_sum_def up wA fl_exact_small)
  have hB: "expHeads_B ?m ?s0 = Fin (11/2)"
    by (simp add: expHeads_B_def fp_sum_def up wB fl_exact_small)
  have tB: "expTails_B ?m ?s0 = Fin (9/2)"
    by (simp add: expTails_B_def fp_sum_def up wB fl_exact_small)
  from m_step_formula [OF w ne lt n o, of ?m] w hA tA show ?thesis
    by (auto simp: hB tB fl_exact_small)
qed

subsection \<open>The restarts and the sorted table\<close>

lemma em_body_theta:
  "em_body m s = Inr s' \<Longrightarrow> theta_A s' \<noteq> None \<and> theta_B s' \<noteq> None"
  by (auto simp: em_body_def Let_def split: if_splits sum.splits prod.splits)

lemma em_while_theta:
  assumes "em_while m s = Inr s'" and "theta_A s \<noteq> None \<and> theta_B s \<noteq> None"
  shows "theta_A s' \<noteq> None \<and> theta_B s' \<noteq> None"
  using assms
proof (induction m s rule: em_while.induct)
  case (1 m s)
  show ?case
  proof (cases "fl_gt (improvement s) (epsilon s)")
    case False
    then show ?thesis using "1.prems" by (simp add: em_while.simps [of m s])
  next
    case True
    show ?thesis
    proof (cases "em_body m s")
      case (Inl e)
      then show ?thesis using True "1.prems"(1) by (simp add: em_while.simps [of m s])
    next
      case (Inr s1)
      then have "em_while m s1 = Inr s'" using True "1.prems"(1) by (simp add: em_while.simps [of m s])
      from "1.IH" [OF True Inr this em_body_theta [OF Inr]] show ?thesis .
    qed
  qed
qed

lemma RunEM_theta:
  assumes "RunEM m hs n a0 b0 (Fin e) = Inr s"
  shows "\<exists>a b. theta_A s = Some a \<and> theta_B s = Some b"
proof (cases "em_body m (em_init hs n a0 b0 (Fin e))")
  case (Inl e)
  then show ?thesis using assms by (simp add: RunEM_first_pass)
next
  case (Inr s1)
  then have "em_while m s1 = Inr s" using assms by (simp add: RunEM_first_pass)
  from em_while_theta [OF this em_body_theta [OF Inr]] show ?thesis by auto
qed

lemma restart_done_cong:
  "same_entry st st' k \<Longrightarrow> restart_done m hs n g st k \<Longrightarrow> restart_done m hs n g st' k"
  by (simp add: same_entry_def restart_done_def)

lemma restarts_from_spec:
  assumes "restarts_from m i gs hs n st = Inr st'" and "same_lengths st N" and "i + length gs \<le> N"
  shows "same_lengths st' N \<and> (\<forall>k<i. same_entry st st' k)
       \<and> (\<forall>k<length gs. restart_done m hs n (gs ! k) st' (i + k))"
  using assms
proof (induction gs arbitrary: i st)
  case Nil
  then show ?case by (simp add: same_entry_def)
next
  case (Cons g gs)
  let ?st1 = "st\<lparr>pA_init := (pA_init st)[i := Fin (fst g)], pB_init := (pB_init st)[i := Fin (snd g)]\<rparr>"
  have iN: "i < N" using Cons.prems(3) by simp
  have len: "length (pA_init st) = N" "length (pB_init st) = N" "length (pA_out st) = N" "length (pB_out st) = N"
    using Cons.prems(2) by (simp_all add: same_lengths_def)
  have rd: "pA_init ?st1 ! i = Fin (fst g)" "pB_init ?st1 ! i = Fin (snd g)"
    using iN len by simp_all
  have step: "restarts_from m i (g # gs) hs n st =
      (case RunEM m hs n (Fin (fst g)) (Fin (snd g)) (Fin (1 / 1000)) of
         Inl e \<Rightarrow> Inl (fst e)
       | Inr s \<Rightarrow>
           (case (theta_A s, theta_B s) of
              (Some a, Some b) \<Rightarrow>
                restarts_from m (Suc i) gs hs n
                  (?st1\<lparr>pA_out := (pA_out ?st1)[i := a], pB_out := (pB_out ?st1)[i := b]\<rparr>)
            | _ \<Rightarrow> restarts_from m (Suc i) gs hs n ?st1))"
    using iN len by (simp add: Let_def)
  from Cons.prems(1) obtain s where
    run: "RunEM m hs n (Fin (fst g)) (Fin (snd g)) (Fin (1 / 1000)) = Inr s"
    unfolding step by (auto split: sum.splits)
  from RunEM_theta [OF run] obtain a b where th: "theta_A s = Some a" "theta_B s = Some b" by blast
  let ?st2 = "?st1\<lparr>pA_out := (pA_out ?st1)[i := a], pB_out := (pB_out ?st1)[i := b]\<rparr>"
  have rec: "restarts_from m (Suc i) gs hs n ?st2 = Inr st'"
    using Cons.prems(1) run th unfolding step by simp
  have l2: "same_lengths ?st2 N" using len by (simp add: same_lengths_def)
  have b2: "Suc i + length gs \<le> N" using Cons.prems(3) by simp
  from Cons.IH [OF rec l2 b2] have
    L: "same_lengths st' N" and S: "\<forall>k<Suc i. same_entry ?st2 st' k"
    and D: "\<forall>k<length gs. restart_done m hs n (gs ! k) st' (Suc i + k)" by simp_all
  have old: "\<forall>k<i. same_entry st st' k"
  proof (intro allI impI)
    fix k assume k: "k < i"
    then have "same_entry ?st2 st' k" using S by simp
    then show "same_entry st st' k" using k by (simp add: same_entry_def)
  qed
  have cur: "restart_done m hs n g ?st2 i"
    using run th iN len by (auto simp: restart_done_def)
  have "same_entry ?st2 st' i" using S by simp
  then have here: "restart_done m hs n g st' i" using cur by (rule restart_done_cong)
  have all: "\<forall>k<length (g # gs). restart_done m hs n ((g # gs) ! k) st' (i + k)"
  proof (intro allI impI)
    fix k assume k: "k < length (g # gs)"
    show "restart_done m hs n ((g # gs) ! k) st' (i + k)"
    proof (cases k)
      case 0
      then show ?thesis using here by simp
    next
      case (Suc m)
      then show ?thesis using D k by simp
    qed
  qed
  show ?case using L old all by simp
qed

lemma restarts_spec:
  assumes "restarts m gs hs n = Inr st"
  shows "same_lengths st (length gs) \<and> (\<forall>k<length gs. restart_done m hs n (gs ! k) st k)"
proof -
  let ?z = "replicate (length gs) (Fin 0)"
  have "same_lengths \<lparr>pA_init = ?z, pB_init = ?z, pA_out = ?z, pB_out = ?z\<rparr> (length gs)"
    by (simp add: same_lengths_def)
  from restarts_from_spec [OF assms [unfolded restarts_def] this] show ?thesis by simp
qed

lemma accuracy_Fin:
  "accuracy tA tB (Fin a) (Fin b) = Fin (\<bar>a - tA\<bar> + \<bar>b - tB\<bar>)"
  by (simp add: accuracy_def fl_sub_def)

lemma acc_rank_Fin_le: "acc_rank (Fin x) \<le> acc_rank (Fin y) \<longleftrightarrow> x \<le> y"
  by (auto simp: less_eq_prod_def)

lemma NaN_rank_least: "acc_rank NaN \<le> acc_rank x \<Longrightarrow> x = NaN"
  by (cases x) (simp_all add: less_eq_prod_def)

lemma data_frame_rows:
  assumes "r \<in> set (data_frame tA tB st)"
  shows "row_index r < length (pA_init st) \<and> col_pA_init r = pA_init st ! row_index r
       \<and> col_pB_init r = pB_init st ! row_index r
       \<and> col_pA_out r = pA_out st ! row_index r \<and> col_pB_out r = pB_out st ! row_index r
       \<and> col_acc r = accuracy tA tB (col_pA_out r) (col_pB_out r)"
  using assms by (auto simp: data_frame_def)

lemma data_frame_index: "map row_index (data_frame tA tB st) = [0..<length (pA_init st)]"
  by (simp add: data_frame_def comp_def)

lemma distinct_index_sort:
  "distinct (map row_index (sort_values_acc (data_frame tA tB st)))"
proof -
  have d: "distinct (map row_index (data_frame tA tB st))"
    by (simp add: data_frame_index)
  then have "distinct (data_frame tA tB st)" and "inj_on row_index (set (data_frame tA tB st))"
    by (simp_all add: distinct_map)
  then show ?thesis by (simp add: sort_values_acc_def distinct_map)
qed

lemma RunMultiRestart_spec:
  assumes "RunMultiRestart m hs n guesses tA tB = Inr rows"
  shows "length rows = length guesses
       \<and> sorted (map (\<lambda>r. acc_rank (col_acc r)) rows)
       \<and> distinct (map row_index rows)
       \<and> (\<forall>r\<in>set rows. row_index r < length guesses
             \<and> col_pA_init r = Fin (fst (guesses ! row_index r))
             \<and> col_pB_init r = Fin (snd (guesses ! row_index r))
             \<and> (\<exists>s. RunEM m hs n (col_pA_init r) (col_pB_init r) (Fin (1 / 1000)) = Inr s
                    \<and> theta_A s = Some (col_pA_out r) \<and> theta_B s = Some (col_pB_out r))
             \<and> col_acc r = accuracy tA tB (col_pA_out r) (col_pB_out r))
       \<and> (\<forall>i k x y. i < k \<and> k < length rows \<and> col_acc (rows ! i) = Fin x \<and> col_acc (rows ! k) = Fin y
             \<longrightarrow> x \<le> y)
       \<and> (\<forall>i k. i < k \<and> k < length rows \<and> col_acc (rows ! i) = NaN \<longrightarrow> col_acc (rows ! k) = NaN)"
proof -
  from assms obtain st where st: "restarts m guesses hs n = Inr st"
    and rows: "rows = sort_values_acc (data_frame tA tB st)"
    by (auto simp: RunMultiRestart_def split: sum.splits)
  from restarts_spec [OF st] have L: "same_lengths st (length guesses)"
    and D: "\<forall>k<length guesses. restart_done m hs n (guesses ! k) st k" by simp_all
  have len: "length (pA_init st) = length guesses" using L by (simp add: same_lengths_def)
  have 1: "length rows = length guesses"
    by (simp add: rows sort_values_acc_def data_frame_def len)
  have 2: "sorted (map (\<lambda>r. acc_rank (col_acc r)) rows)"
    by (simp add: rows sort_values_acc_def)
  have 3: "distinct (map row_index rows)" unfolding rows by (rule distinct_index_sort)
  have 4: "row_index r < length guesses
             \<and> col_pA_init r = Fin (fst (guesses ! row_index r))
             \<and> col_pB_init r = Fin (snd (guesses ! row_index r))
             \<and> (\<exists>s. RunEM m hs n (col_pA_init r) (col_pB_init r) (Fin (1 / 1000)) = Inr s
                    \<and> theta_A s = Some (col_pA_out r) \<and> theta_B s = Some (col_pB_out r))
             \<and> col_acc r = accuracy tA tB (col_pA_out r) (col_pB_out r)"
    if "r \<in> set rows" for r
  proof -
    have "r \<in> set (data_frame tA tB st)" using that by (simp add: rows sort_values_acc_def)
    note f = data_frame_rows [OF this]
    have k: "row_index r < length guesses" using f len by simp
    from D k have "restart_done m hs n (guesses ! row_index r) st (row_index r)" by simp
    then show ?thesis using f k by (auto simp: restart_done_def)
  qed
  have mono: "acc_rank (col_acc (rows ! i)) \<le> acc_rank (col_acc (rows ! k))"
    if "i < k" "k < length rows" for i k
    using sorted_nth_mono [OF 2, of i k] that by simp
  have 5: "\<forall>i k x y. i < k \<and> k < length rows \<and> col_acc (rows ! i) = Fin x \<and> col_acc (rows ! k) = Fin y
             \<longrightarrow> x \<le> y"
    using mono acc_rank_Fin_le by metis
  have 6: "\<forall>i k. i < k \<and> k < length rows \<and> col_acc (rows ! i) = NaN \<longrightarrow> col_acc (rows ! k) = NaN"
    using mono NaN_rank_least by metis
  show ?thesis using 1 2 3 4 5 6 by blast
qed

lemma run_zero_zero:
  "\<exists>s. RunEM exact_machine [5] 10 (Fin 0) (Fin 0) (Fin (1/1000)) = Inr s
      \<and> theta_A s = Some NaN \<and> theta_B s = Some NaN"
  using nan_run [OF lik_5_10_0 lik_5_10_0, of exact_machine] not_overflows_small [of 10 5]
  by auto

lemma restarts_example:
  "restarts exact_machine [(0, 0), (1/2, 1/2)] [5] 10 =
     Inr \<lparr>pA_init = [Fin 0, Fin (1/2)], pB_init = [Fin 0, Fin (1/2)],
          pA_out = [NaN, Fin (1/2)], pB_out = [NaN, Fin (1/2)]\<rparr>"
proof -
  from run_zero_zero obtain s0 where
    r0: "RunEM exact_machine [5] 10 (Fin 0) (Fin 0) (Fin (1/1000)) = Inr s0" "theta_A s0 = Some NaN" "theta_B s0 = Some NaN"
    by blast
  from run_half_half obtain s1 where
    r1: "RunEM exact_machine [5] 10 (Fin (1/2)) (Fin (1/2)) (Fin (1/1000)) = Inr s1"
      "theta_A s1 = Some (Fin (1/2))" "theta_B s1 = Some (Fin (1/2))"
    by blast
  show ?thesis by (simp add: restarts_def r0 r1)
qed

lemma RunMultiRestart_example:
  "RunMultiRestart exact_machine [5] 10 [(0, 0), (1/2, 1/2)] (4/5) (2/5) =
     Inr [\<lparr>row_index = 1, col_pA_init = Fin (1/2), col_pB_init = Fin (1/2),
            col_pA_out = Fin (1/2), col_pB_out = Fin (1/2), col_acc = Fin (2/5)\<rparr>,
          \<lparr>row_index = 0, col_pA_init = Fin 0, col_pB_init = Fin 0,
            col_pA_out = NaN, col_pB_out = NaN, col_acc = NaN\<rparr>]"
proof -
  have up: "[0..<2] = [0, Suc 0]" by (simp add: upt_rec)
  show ?thesis
    by (simp add: RunMultiRestart_def restarts_example data_frame_def up accuracy_def fl_sub_def
        sort_values_acc_def less_eq_prod_def)
qed

lemma restarts_from_returns:
  assumes "\<forall>g\<in>set gs. \<not> isl (RunEM m hs n (Fin (fst g)) (Fin (snd g)) (Fin (1 / 1000)))"
    and "same_lengths st N" and "i + length gs \<le> N"
  shows "\<exists>st'. restarts_from m i gs hs n st = Inr st'"
  using assms
proof (induction gs arbitrary: i st)
  case Nil
  then show ?case by simp
next
  case (Cons g gs)
  let ?st1 = "st\<lparr>pA_init := (pA_init st)[i := Fin (fst g)], pB_init := (pB_init st)[i := Fin (snd g)]\<rparr>"
  have iN: "i < N" using Cons.prems(3) by simp
  have len: "length (pA_init st) = N" "length (pB_init st) = N" "length (pA_out st) = N" "length (pB_out st) = N"
    using Cons.prems(2) by (simp_all add: same_lengths_def)
  from Cons.prems(1) obtain s where
    run: "RunEM m hs n (Fin (fst g)) (Fin (snd g)) (Fin (1 / 1000)) = Inr s"
    by (cases "RunEM m hs n (Fin (fst g)) (Fin (snd g)) (Fin (1 / 1000))") auto
  from RunEM_theta [OF run] obtain a b where th: "theta_A s = Some a" "theta_B s = Some b" by blast
  let ?st2 = "?st1\<lparr>pA_out := (pA_out ?st1)[i := a], pB_out := (pB_out ?st1)[i := b]\<rparr>"
  have step: "restarts_from m i (g # gs) hs n st = restarts_from m (Suc i) gs hs n ?st2"
    using iN len run th by (simp add: Let_def)
  have l2: "same_lengths ?st2 N" using len by (simp add: same_lengths_def)
  have b2: "Suc i + length gs \<le> N" using Cons.prems(3) by simp
  have r: "\<forall>g\<in>set gs. \<not> isl (RunEM m hs n (Fin (fst g)) (Fin (snd g)) (Fin (1 / 1000)))"
    using Cons.prems(1) by simp
  from Cons.IH [OF r l2 b2] show ?case unfolding step .
qed

lemma RunMultiRestart_returns:
  assumes "\<forall>g\<in>set guesses. \<not> isl (RunEM m hs n (Fin (fst g)) (Fin (snd g)) (Fin (1 / 1000)))"
  shows "\<exists>rows. RunMultiRestart m hs n guesses tA tB = Inr rows"
proof -
  let ?z = "replicate (length guesses) (Fin 0)"
  have "same_lengths \<lparr>pA_init = ?z, pB_init = ?z, pA_out = ?z, pB_out = ?z\<rparr> (length guesses)"
    by (simp add: same_lengths_def)
  from restarts_from_returns [OF assms this, of 0] obtain st where
    "restarts m guesses hs n = Inr st" by (auto simp: restarts_def)
  then show ?thesis by (simp add: RunMultiRestart_def)
qed

text \<open>
  Claim C8, as amended. When the run of every restart returns (none raises an exception),
  the table has one row per restart, each with the initial guess of its restart, the biases
  its run returned and the score \<open>|pA_out - theta_A_true| + |pB_out - theta_B_true|\<close>, and
  the rows are in ascending order of the score, the rows whose score is \<open>nan\<close> last.
\<close>

theorem RunMultiRestart_sorted:
  assumes "\<forall>g\<in>set guesses. \<not> isl (RunEM m hs n (Fin (fst g)) (Fin (snd g)) (Fin (1 / 1000)))"
  shows "\<exists>rows. RunMultiRestart m hs n guesses tA tB = Inr rows
       \<and> length rows = length guesses
       \<and> sorted (map (\<lambda>r. acc_rank (col_acc r)) rows)
       \<and> distinct (map row_index rows)
       \<and> (\<forall>r\<in>set rows. row_index r < length guesses
             \<and> col_pA_init r = Fin (fst (guesses ! row_index r))
             \<and> col_pB_init r = Fin (snd (guesses ! row_index r))
             \<and> (\<exists>s. RunEM m hs n (col_pA_init r) (col_pB_init r) (Fin (1 / 1000)) = Inr s
                    \<and> theta_A s = Some (col_pA_out r) \<and> theta_B s = Some (col_pB_out r))
             \<and> col_acc r = accuracy tA tB (col_pA_out r) (col_pB_out r))
       \<and> (\<forall>i k x y. i < k \<and> k < length rows \<and> col_acc (rows ! i) = Fin x \<and> col_acc (rows ! k) = Fin y
             \<longrightarrow> x \<le> y)
       \<and> (\<forall>i k. i < k \<and> k < length rows \<and> col_acc (rows ! i) = NaN \<longrightarrow> col_acc (rows ! k) = NaN)"
proof -
  from RunMultiRestart_returns [OF assms] obtain rows where
    r: "RunMultiRestart m hs n guesses tA tB = Inr rows" by blast
  from RunMultiRestart_spec [OF r] r show ?thesis by blast
qed

theorem RunMultiRestart_sorted_witness:
  "\<exists>rows. RunMultiRestart exact_machine [5] 10 [(0, 0), (1/2, 1/2)] (4/5) (2/5) = Inr rows
     \<and> length rows = 2
     \<and> sorted (map (\<lambda>r. acc_rank (col_acc r)) rows)
     \<and> map row_index rows = [1, 0]
     \<and> map col_acc rows = [Fin (2/5), NaN]"
proof -
  have h: "\<forall>g\<in>set [(0, 0), (1/2, 1/2)]. \<not> isl (RunEM exact_machine [5] 10 (Fin (fst g)) (Fin (snd g)) (Fin (1 / 1000)))"
    using run_zero_zero run_half_half by auto
  from RunMultiRestart_sorted [OF h, of "4/5" "2/5"] obtain rows where
    r: "RunMultiRestart exact_machine [5] 10 [(0, 0), (1/2, 1/2)] (4/5) (2/5) = Inr rows"
    and l: "length rows = length [(0::real, 0::real), (1/2, 1/2)]"
    and s: "sorted (map (\<lambda>r. acc_rank (col_acc r)) rows)" by blast
  have i: "map row_index rows = [1, 0]" and a: "map col_acc rows = [Fin (2/5), NaN]"
    using r by (auto simp: RunMultiRestart_example)
  show ?thesis using r l s i a by simp
qed

text \<open>
  Claim C8 fails as stated in two ways. On a dataset with no experiment the run of the
  first restart raises \<open>TypeError\<close>, which ends the cell: no table is produced. And with
  5 heads in 10 tosses and the guesses \<open>(0, 0)\<close> and \<open>(1/2, 1/2)\<close> the scores of the sorted
  table are \<open>2/5\<close> and \<open>nan\<close>, and \<open>2/5 \<le> nan\<close> is false.
\<close>

theorem RunMultiRestart_sorted_counterexample:
  "RunMultiRestart exact_machine [] 10 [(1/2, 1/2)] (4/5) (2/5) = Inl TypeError
   \<and> map col_acc (projr (RunMultiRestart exact_machine [5] 10 [(0, 0), (1/2, 1/2)] (4/5) (2/5))) = [Fin (2/5), NaN]
   \<and> \<not> fl_le (Fin (2/5)) NaN"
proof -
  let ?m = exact_machine
  let ?e0 = "em_init [] 10 (Fin (1/2)) (Fin (1/2)) (Fin (1/1000))"
  have "wf_state ?e0" by (rule wf_em_init)
  moreover have "head_counts ?e0 = []" by simp
  ultimately obtain s' where "em_body ?m ?e0 = Inl (TypeError, s')"
    using em_body_no_rows by blast
  then have "RunEM exact_machine [] 10 (Fin (1/2)) (Fin (1/2)) (Fin (1/1000)) = Inl (TypeError, s')"
    by (simp add: RunEM_first_pass)
  then have "RunMultiRestart exact_machine [] 10 [(1/2, 1/2)] (4/5) (2/5) = Inl TypeError"
    by (simp add: RunMultiRestart_def restarts_def)
  then show ?thesis by (simp add: RunMultiRestart_example fl_le_def)
qed

subsection \<open>Biases in the unit interval\<close>

lemma sound_rnd_0: "sound_machine m \<Longrightarrow> rnd m 0 = 0"
proof -
  assume "sound_machine m"
  then have "rnd m (real 0) = real 0" unfolding sound_machine_def by (metis zero_less_numeral zero_less_power)
  then show ?thesis by simp
qed

lemma sound_rnd_1: "sound_machine m \<Longrightarrow> rnd m 1 = 1"
proof -
  assume "sound_machine m"
  moreover have "(1::nat) < 2 ^ 53" by simp
  ultimately have "rnd m (real 1) = real 1" unfolding sound_machine_def by blast
  then show ?thesis by simp
qed

lemma sound_rnd_mono: "sound_machine m \<Longrightarrow> x \<le> y \<Longrightarrow> rnd m x \<le> rnd m y"
  by (simp add: sound_machine_def)

lemma sound_rnd_idem: "sound_machine m \<Longrightarrow> rnd m (rnd m x) = rnd m x"
  by (simp add: sound_machine_def)

lemma sound_rnd_nat: "sound_machine m \<Longrightarrow> k < 2 ^ 53 \<Longrightarrow> rnd m (real k) = real k"
  by (simp add: sound_machine_def)

lemma sound_powf:
  "sound_machine m \<Longrightarrow> 0 \<le> x \<Longrightarrow> x \<le> 1 \<Longrightarrow> 0 < e \<Longrightarrow> \<exists>y. powf m x e = Fin y \<and> 0 \<le> y \<and> y \<le> 1"
  by (simp add: sound_machine_def)

lemma fl_nonneg:
  assumes "sound_machine m" and "0 \<le> z"
  shows "nonneg (fl m z)"
proof -
  have "0 \<le> rnd m z" using sound_rnd_mono [OF assms(1,2)] sound_rnd_0 [OF assms(1)] by simp
  then show ?thesis using assms(2) float_limit_real_pos by (simp add: fl_def nonneg_def)
qed

lemma fl_rounded: "sound_machine m \<Longrightarrow> rounded m (fl m z)"
  by (simp add: fl_def rounded_def sound_rnd_0 sound_rnd_idem)

lemma fl_unit:
  assumes "sound_machine m" and "0 \<le> z" and "z \<le> 1"
  shows "\<exists>y. fl m z = Fin y \<and> 0 \<le> y \<and> y \<le> 1"
proof -
  have 0: "0 \<le> rnd m z" using sound_rnd_mono [OF assms(1,2)] sound_rnd_0 [OF assms(1)] by simp
  have 1: "rnd m z \<le> 1" using sound_rnd_mono [OF assms(1,3)] sound_rnd_1 [OF assms(1)] by simp
  have "z < real float_limit" using assms(3) one_less_float_limit by linarith
  then show ?thesis using 0 1 assms(2) float_limit_real_pos by (simp add: fl_def)
qed

lemma fp_add_nonneg:
  assumes "sound_machine m" and "nonneg x" and "nonneg y"
  shows "nonneg (fp_add m x y)"
proof (cases x)
  case (Fin a)
  show ?thesis
  proof (cases y)
    case (Fin b)
    have "0 \<le> a + b" using assms(2,3) \<open>x = Fin a\<close> Fin by (simp add: nonneg_def)
    from fl_nonneg [OF assms(1) this] show ?thesis
      using assms(2,3) \<open>x = Fin a\<close> Fin by (simp add: nonneg_def)
  qed (use assms(3) \<open>x = Fin a\<close> in \<open>simp_all add: nonneg_def\<close>)
next
  case PInf
  then show ?thesis using assms(3) by (cases y) (simp_all add: nonneg_def)
next
  case NInf
  then show ?thesis using assms(2) by (simp add: nonneg_def)
next
  case NaN
  then show ?thesis by (simp add: nonneg_def)
qed

lemma fp_add_rounded:
  assumes "sound_machine m" and "rounded m x" and "rounded m y"
  shows "rounded m (fp_add m x y)"
proof (cases x)
  case (Fin a)
  show ?thesis
  proof (cases y)
    case (Fin b)
    show ?thesis
      using assms(2,3) \<open>x = Fin a\<close> Fin fl_rounded [OF assms(1), of "a + b"] by simp
  qed (use \<open>x = Fin a\<close> in \<open>simp_all add: rounded_def\<close>)
qed (cases y; simp add: rounded_def)+

lemma fp_mul_nonneg:
  assumes "sound_machine m" and "nonneg x" and "nonneg y"
  shows "nonneg (fp_mul m x y)"
proof (cases x)
  case (Fin a)
  show ?thesis
  proof (cases y)
    case (Fin b)
    have "0 \<le> a * b" using assms(2,3) \<open>x = Fin a\<close> Fin by (simp add: nonneg_def)
    from fl_nonneg [OF assms(1) this] show ?thesis
      using assms(2,3) \<open>x = Fin a\<close> Fin by (simp add: nonneg_def)
  next
    case PInf
    then show ?thesis using assms(2) \<open>x = Fin a\<close> by (auto simp: nonneg_def)
  qed (use assms(3) \<open>x = Fin a\<close> in \<open>simp_all add: nonneg_def\<close>)
next
  case PInf
  then show ?thesis using assms(3) by (cases y) (auto simp: nonneg_def)
next
  case NInf
  then show ?thesis using assms(2) by (simp add: nonneg_def)
next
  case NaN
  then show ?thesis by (simp add: nonneg_def)
qed

lemma fp_mul_rounded:
  assumes "sound_machine m" and "rounded m x" and "rounded m y"
  shows "rounded m (fp_mul m x y)"
proof (cases x)
  case (Fin a)
  show ?thesis
  proof (cases y)
    case (Fin b)
    show ?thesis
      using assms(2,3) \<open>x = Fin a\<close> Fin fl_rounded [OF assms(1), of "a * b"] by simp
  qed (use \<open>x = Fin a\<close> in \<open>simp_all add: rounded_def\<close>)
qed (cases y; simp add: rounded_def)+

lemma fp_div_nonneg:
  assumes "sound_machine m" and "nonneg x" and "nonneg y"
  shows "nonneg (fp_div m x y)"
proof (cases x)
  case (Fin a)
  show ?thesis
  proof (cases y)
    case (Fin b)
    have "0 \<le> a / b" using assms(2,3) \<open>x = Fin a\<close> Fin by (simp add: nonneg_def)
    from fl_nonneg [OF assms(1) this] show ?thesis
      using assms(2,3) \<open>x = Fin a\<close> Fin by (auto simp: nonneg_def)
  qed (use assms(3) \<open>x = Fin a\<close> in \<open>simp_all add: nonneg_def\<close>)
next
  case PInf
  then show ?thesis using assms(3) by (cases y) (auto simp: nonneg_def)
next
  case NInf
  then show ?thesis using assms(2) by (simp add: nonneg_def)
next
  case NaN
  then show ?thesis by (simp add: nonneg_def)
qed

lemma fp_div_rounded:
  assumes "sound_machine m"
  shows "rounded m (fp_div m x y)"
proof (cases x)
  case (Fin a)
  show ?thesis
  proof (cases y)
    case (Fin b)
    show ?thesis
      using \<open>x = Fin a\<close> Fin fl_rounded [OF assms, of "a / b"] by (simp add: rounded_def)
  qed (use \<open>x = Fin a\<close> sound_rnd_0 [OF assms] in \<open>simp_all add: rounded_def\<close>)
qed (cases y; simp add: rounded_def)+

lemma foldl_fp_add_nonneg:
  assumes "sound_machine m"
  shows "nonneg a \<Longrightarrow> \<forall>x\<in>set xs. nonneg x \<Longrightarrow> nonneg (foldl (fp_add m) a xs)"
  by (induction xs arbitrary: a) (simp_all add: fp_add_nonneg [OF assms])

lemma foldl_fp_add_rounded:
  assumes "sound_machine m"
  shows "rounded m a \<Longrightarrow> \<forall>x\<in>set xs. rounded m x \<Longrightarrow> rounded m (foldl (fp_add m) a xs)"
  by (induction xs arbitrary: a) (simp_all add: fp_add_rounded [OF assms])

lemma fp_sum_nonneg:
  "sound_machine m \<Longrightarrow> \<forall>x\<in>set xs. nonneg x \<Longrightarrow> nonneg (fp_sum m xs)"
  unfolding fp_sum_def by (rule foldl_fp_add_nonneg) (simp_all add: nonneg_def)

lemma fp_sum_rounded:
  "sound_machine m \<Longrightarrow> \<forall>x\<in>set xs. rounded m x \<Longrightarrow> rounded m (fp_sum m xs)"
  unfolding fp_sum_def by (rule foldl_fp_add_rounded) (simp_all add: rounded_def sound_rnd_0)

lemma fp_pow_nonneg:
  assumes "sound_machine m" and "0 \<le> x" and "x \<le> 1" and "0 \<le> e"
  shows "nonneg (fp_pow m (Fin x) e)"
proof (cases "e = 0 \<or> x = 0 \<or> x = 1")
  case True
  then show ?thesis using assms(4) by (auto simp: fp_pow_def nonneg_def)
next
  case False
  then have "0 < e" using assms(4) by simp
  from sound_powf [OF assms(1,2,3) this] show ?thesis using False
    by (auto simp: fp_pow_def nonneg_def)
qed

lemma fp_sub_one_unit:
  assumes "sound_machine m" and "0 \<le> a" and "a \<le> 1"
  shows "\<exists>y. fp_sub m (Fin 1) (Fin a) = Fin y \<and> 0 \<le> y \<and> y \<le> 1"
proof (cases "a = 0")
  case True
  then show ?thesis by simp
next
  case False
  have "0 \<le> 1 - a" "1 - a \<le> 1" using assms(2,3) by simp_all
  from fl_unit [OF assms(1) this] show ?thesis using False by (simp add: fp_sub_def)
qed

lemma lik_value_nonneg:
  assumes "sound_machine m" and "0 \<le> a" and "a \<le> 1" and "h \<le> n"
  shows "nonneg (lik_value m h n (Fin a))"
proof -
  let ?c = "if n choose h < 2 ^ 53 then real (n choose h) else rnd m (real (n choose h))"
  have "0 \<le> rnd m (real (n choose h))"
    using sound_rnd_mono [OF assms(1), of 0 "real (n choose h)"] sound_rnd_0 [OF assms(1)] by simp
  then have c: "nonneg (Fin ?c)" by (simp add: nonneg_def)
  have p: "nonneg (fp_pow m (Fin a) (int h))" by (rule fp_pow_nonneg [OF assms(1,2,3)]) simp
  from fp_sub_one_unit [OF assms(1,2,3)] obtain y where
    y: "fp_sub m (Fin 1) (Fin a) = Fin y" "0 \<le> y" "y \<le> 1" by blast
  have e: "0 \<le> int n - int h" using assms(4) by simp
  have q: "nonneg (fp_pow m (fp_sub m (Fin 1) (Fin a)) (int n - int h))"
    unfolding y(1) by (rule fp_pow_nonneg [OF assms(1) y(2,3) e])
  show ?thesis unfolding lik_value_def
    by (intro fp_mul_nonneg [OF assms(1)] c p q)
qed

lemma unit_quotient:
  assumes "sound_machine m" and "nonneg H" and "nonneg T" and "rounded m H"
    and "fp_add m H T = Fin d"
  shows "(d \<noteq> 0 \<longrightarrow> (\<exists>y. fp_div m H (Fin d) = Fin y \<and> 0 \<le> y \<and> y \<le> 1))
       \<and> (d = 0 \<longrightarrow> fp_div m H (Fin d) = NaN)"
proof -
  obtain h where H: "H = Fin h"
    using assms(5) by (cases H; cases T) simp_all
  obtain t where T: "T = Fin t"
    using assms(5) by (cases H; cases T) simp_all
  have h0: "0 \<le> h" and t0: "0 \<le> t" using assms(2,3) H T by (simp_all add: nonneg_def)
  have rh: "rnd m h = h" using assms(4) H by (simp add: rounded_def)
  have hd: "h \<le> d \<and> (d = 0 \<longrightarrow> h = 0)"
  proof (cases "h = 0 \<or> t = 0")
    case True
    then show ?thesis using assms(5) H T h0 t0 by (auto split: if_splits)
  next
    case False
    then have pos: "0 < h" "0 < t" using h0 t0 by simp_all
    then have ne: "h + t \<noteq> 0" by simp
    have "fl m (h + t) = Fin d" using assms(5) H T False by simp
    then have d: "d = rnd m (h + t)" using ne by (simp add: fl_def split: if_splits)
    have "rnd m h \<le> rnd m (h + t)" using pos by (intro sound_rnd_mono [OF assms(1)]) simp
    then have "h \<le> d" using rh d by simp
    then show ?thesis using pos by simp
  qed
  show ?thesis
  proof (cases "d = 0")
    case True
    then show ?thesis using hd H by simp
  next
    case False
    then have dpos: "0 < d" using hd h0 by simp
    have "0 \<le> h / d" "h / d \<le> 1" using hd h0 dpos by simp_all
    from fl_unit [OF assms(1) this] show ?thesis using False H by simp
  qed
qed

lemma weights_nonneg:
  assumes "sound_machine m" and "wf_state s"
    and "\<forall>h\<in>set (head_counts s). h \<le> num_coin_toss s"
    and "pA_heads s ! j s = Fin a" and "0 \<le> a" and "a \<le> 1"
    and "pB_heads s ! j s = Fin b" and "0 \<le> b" and "b \<le> 1"
    and "i < length (head_counts s)"
  shows "nonneg (weightA m s i)" and "nonneg (weightB m s i)"
proof -
  have h: "head_counts s ! i \<le> num_coin_toss s" using assms(3,10) by simp
  have la: "nonneg (lA_of m s i)"
    unfolding lA_of_def assms(4) by (rule lik_value_nonneg [OF assms(1,5,6) h])
  have lb: "nonneg (lB_of m s i)"
    unfolding lB_of_def assms(7) by (rule lik_value_nonneg [OF assms(1,8,9) h])
  have s: "nonneg (fp_add m (lA_of m s i) (lB_of m s i))"
    by (rule fp_add_nonneg [OF assms(1) la lb])
  show "nonneg (weightA m s i)" unfolding weightA_def by (rule fp_div_nonneg [OF assms(1) la s])
  show "nonneg (weightB m s i)" unfolding weightB_def by (rule fp_div_nonneg [OF assms(1) lb s])
qed

lemma weights_rounded:
  assumes "sound_machine m"
  shows "rounded m (weightA m s i)" and "rounded m (weightB m s i)"
  unfolding weightA_def weightB_def by (rule fp_div_rounded [OF assms])+

lemma nonneg_Fin_nat: "nonneg (Fin (real k))"
  by (simp add: nonneg_def)

lemma expected_sums:
  assumes "sound_machine m" and "wf_state s" and "num_coin_toss s < 2 ^ 53"
    and "\<forall>h\<in>set (head_counts s). h \<le> num_coin_toss s"
    and "pA_heads s ! j s = Fin a" and "0 \<le> a" and "a \<le> 1"
    and "pB_heads s ! j s = Fin b" and "0 \<le> b" and "b \<le> 1"
  shows "nonneg (expHeads_A m s)" and "nonneg (expTails_A m s)" and "rounded m (expHeads_A m s)"
    and "nonneg (expHeads_B m s)" and "nonneg (expTails_B m s)" and "rounded m (expHeads_B m s)"
proof -
  note w = weights_nonneg [OF assms(1,2,4-10)]
  have t: "real_of_int (tail_counts s ! i) = real (num_coin_toss s - head_counts s ! i)"
    if "i < length (head_counts s)" for i
  proof -
    have "head_counts s ! i \<le> num_coin_toss s" using assms(4) that by simp
    moreover have "tail_counts s ! i = int (num_coin_toss s) - int (head_counts s ! i)"
      using assms(2) that by (simp add: wf_state_def)
    ultimately show ?thesis by simp
  qed
  have r: "rounded m (Fin (real (head_counts s ! i)))" if "i < length (head_counts s)" for i
  proof -
    have "head_counts s ! i \<le> num_coin_toss s" using assms(4) that by simp
    then have "head_counts s ! i < 2 ^ 53" using assms(3) by simp
    from sound_rnd_nat [OF assms(1) this] show ?thesis by (simp add: rounded_def)
  qed
  show "nonneg (expHeads_A m s)" unfolding expHeads_A_def
    by (rule fp_sum_nonneg [OF assms(1)]) (auto intro!: fp_mul_nonneg [OF assms(1)] w nonneg_Fin_nat)
  show "nonneg (expHeads_B m s)" unfolding expHeads_B_def
    by (rule fp_sum_nonneg [OF assms(1)]) (auto intro!: fp_mul_nonneg [OF assms(1)] w nonneg_Fin_nat)
  show "nonneg (expTails_A m s)" unfolding expTails_A_def
    by (rule fp_sum_nonneg [OF assms(1)])
       (auto simp: t intro!: fp_mul_nonneg [OF assms(1)] w nonneg_Fin_nat)
  show "nonneg (expTails_B m s)" unfolding expTails_B_def
    by (rule fp_sum_nonneg [OF assms(1)])
       (auto simp: t intro!: fp_mul_nonneg [OF assms(1)] w nonneg_Fin_nat)
  show "rounded m (expHeads_A m s)" unfolding expHeads_A_def
    by (rule fp_sum_rounded [OF assms(1)])
       (auto intro!: fp_mul_rounded [OF assms(1)] weights_rounded [OF assms(1)] r)
  show "rounded m (expHeads_B m s)" unfolding expHeads_B_def
    by (rule fp_sum_rounded [OF assms(1)])
       (auto intro!: fp_mul_rounded [OF assms(1)] weights_rounded [OF assms(1)] r)
qed

lemma unit_or_nan:
  assumes "sound_machine m" and "nonneg H" and "nonneg T" and "rounded m H"
  shows "fp_div m H (fp_add m H T) = NaN
       \<or> (\<exists>y. fp_div m H (fp_add m H T) = Fin y \<and> 0 \<le> y \<and> y \<le> 1)"
proof (cases "fp_add m H T")
  case (Fin d)
  from unit_quotient [OF assms Fin] show ?thesis unfolding Fin by (cases "d = 0") simp_all
next
  case PInf
  have "fp_div m H PInf = NaN \<or> (\<exists>y. fp_div m H PInf = Fin y \<and> 0 \<le> y \<and> y \<le> 1)"
    using assms(2) by (cases H) (simp_all add: nonneg_def)
  then show ?thesis unfolding PInf .
next
  case NInf
  then show ?thesis using fp_add_nonneg [OF assms(1,2,3)] by (simp add: nonneg_def)
next
  case NaN
  show ?thesis unfolding NaN by simp
qed

lemma em_pass_unit_interval:
  assumes "sound_machine m" and "wf_state s" and "j s + 1 < 100"
    and "head_counts s \<noteq> []" and "num_coin_toss s < 2 ^ 53"
    and "\<forall>h\<in>set (head_counts s). h \<le> num_coin_toss s \<and> \<not> overflows (num_coin_toss s) h"
    and "pA_heads s ! j s = Fin a" and "0 \<le> a" and "a \<le> 1"
    and "pB_heads s ! j s = Fin b" and "0 \<le> b" and "b \<le> 1"
  shows "\<exists>s'. em_body m s = Inr s'
     \<and> (pA_heads s' ! (j s + 1) = NaN
          \<or> (\<exists>a'. pA_heads s' ! (j s + 1) = Fin a' \<and> 0 \<le> a' \<and> a' \<le> 1))
     \<and> (pB_heads s' ! (j s + 1) = NaN
          \<or> (\<exists>b'. pB_heads s' ! (j s + 1) = Fin b' \<and> 0 \<le> b' \<and> b' \<le> 1))
     \<and> (\<forall>d. fp_add m (expHeads_A m s) (expTails_A m s) = Fin d
            \<longrightarrow> (pA_heads s' ! (j s + 1) = NaN \<longleftrightarrow> d = 0))
     \<and> (\<forall>d. fp_add m (expHeads_B m s) (expTails_B m s) = Fin d
            \<longrightarrow> (pB_heads s' ! (j s + 1) = NaN \<longleftrightarrow> d = 0))"
proof -
  have le: "\<forall>h\<in>set (head_counts s). h \<le> num_coin_toss s"
    and no: "\<forall>h\<in>set (head_counts s). \<not> overflows (num_coin_toss s) h"
    using assms(6) by simp_all
  note e = expected_sums [OF assms(1,2,5) le assms(7-12)]
  from em_pass_formula [OF assms(2,4,3) no, of m] obtain s' where
    b: "em_body m s = Inr s'"
    and pA: "pA_heads s' ! (j s + 1) = fp_div m (expHeads_A m s) (fp_add m (expHeads_A m s) (expTails_A m s))"
    and pB: "pB_heads s' ! (j s + 1) = fp_div m (expHeads_B m s) (fp_add m (expHeads_B m s) (expTails_B m s))"
    by blast
  have A: "pA_heads s' ! (j s + 1) = NaN \<longleftrightarrow> d = 0"
    if "fp_add m (expHeads_A m s) (expTails_A m s) = Fin d" for d
    unfolding pA that using unit_quotient [OF assms(1) e(1,2,3) that] by auto
  have B: "pB_heads s' ! (j s + 1) = NaN \<longleftrightarrow> d = 0"
    if "fp_add m (expHeads_B m s) (expTails_B m s) = Fin d" for d
    unfolding pB that using unit_quotient [OF assms(1) e(4,5,6) that] by auto
  have UA: "pA_heads s' ! (j s + 1) = NaN
          \<or> (\<exists>a'. pA_heads s' ! (j s + 1) = Fin a' \<and> 0 \<le> a' \<and> a' \<le> 1)"
    unfolding pA by (rule unit_or_nan [OF assms(1) e(1,2,3)])
  have UB: "pB_heads s' ! (j s + 1) = NaN
          \<or> (\<exists>b'. pB_heads s' ! (j s + 1) = Fin b' \<and> 0 \<le> b' \<and> b' \<le> 1)"
    unfolding pB by (rule unit_or_nan [OF assms(1) e(4,5,6)])
  show ?thesis using b A B UA UB by blast
qed

text \<open>
  Claim C9, as amended. In a pass of the loop (before the 100th) from biases in \<open>[0,1]\<close>, on
  a dataset with at least one experiment, no more heads than tosses, fewer than \<open>2^53\<close>
  tosses in an experiment and no binomial coefficient too large for a float, the pass
  completes and the new bias of each coin is either \<open>nan\<close> or a float in \<open>[0,1]\<close>. When
  the denominator \<open>expHeads + expTails\<close> of the coin's M step is a finite float, the new
  bias is \<open>nan\<close> exactly when that denominator is 0. This holds for every machine whose
  rounding is monotone and leaves floats as they are, and whose powers of a base in
  \<open>[0,1]\<close> lie in \<open>[0,1]\<close>; a likelihood may underflow to 0.
\<close>

theorem m_step_unit_interval:
  assumes "sound_machine m" and "wf_state s" and "j s + 1 < 100"
    and "head_counts s \<noteq> []" and "num_coin_toss s < 2 ^ 53"
    and "\<forall>h\<in>set (head_counts s). h \<le> num_coin_toss s \<and> \<not> overflows (num_coin_toss s) h"
    and "pA_heads s ! j s = Fin a" and "0 \<le> a" and "a \<le> 1"
    and "pB_heads s ! j s = Fin b" and "0 \<le> b" and "b \<le> 1"
  shows "\<exists>s'. em_body m s = Inr s'
     \<and> (pA_heads s' ! (j s + 1) = NaN
          \<or> (\<exists>a'. pA_heads s' ! (j s + 1) = Fin a' \<and> 0 \<le> a' \<and> a' \<le> 1))
     \<and> (pB_heads s' ! (j s + 1) = NaN
          \<or> (\<exists>b'. pB_heads s' ! (j s + 1) = Fin b' \<and> 0 \<le> b' \<and> b' \<le> 1))
     \<and> (\<forall>d. fp_add m (expHeads_A m s) (expTails_A m s) = Fin d
            \<longrightarrow> (pA_heads s' ! (j s + 1) = NaN \<longleftrightarrow> d = 0))
     \<and> (\<forall>d. fp_add m (expHeads_B m s) (expTails_B m s) = Fin d
            \<longrightarrow> (pB_heads s' ! (j s + 1) = NaN \<longleftrightarrow> d = 0))"
  using assms by (rule em_pass_unit_interval)

lemma em_init_lengths [simp]:
  "length (pA_heads (em_init hs n a0 b0 eps)) = 100"
  "length (pB_heads (em_init hs n a0 b0 eps)) = 100"
  by (simp_all add: em_init_def)

theorem m_step_unit_interval_witness:
  "sound_machine exact_machine
   \<and> fp_add exact_machine
        (expHeads_A exact_machine (em_init [9, 2] 10 (Fin (1/2)) (Fin (1/2)) (Fin (1/1000))))
        (expTails_A exact_machine (em_init [9, 2] 10 (Fin (1/2)) (Fin (1/2)) (Fin (1/1000)))) = Fin 10
   \<and> fp_add exact_machine
        (expHeads_B exact_machine (em_init [9, 2] 10 (Fin (1/2)) (Fin (1/2)) (Fin (1/1000))))
        (expTails_B exact_machine (em_init [9, 2] 10 (Fin (1/2)) (Fin (1/2)) (Fin (1/1000)))) = Fin 10
   \<and> (\<exists>s' a' b'. em_body exact_machine (em_init [9, 2] 10 (Fin (1/2)) (Fin (1/2)) (Fin (1/1000))) = Inr s'
         \<and> pA_heads s' ! 1 = Fin a' \<and> 0 \<le> a' \<and> a' \<le> 1
         \<and> pB_heads s' ! 1 = Fin b' \<and> 0 \<le> b' \<and> b' \<le> 1)"
proof -
  let ?m = exact_machine
  let ?s0 = "em_init [9, 2] 10 (Fin (1/2)) (Fin (1/2)) (Fin (1/1000))"
  have w: "wf_state ?s0" by (rule wf_em_init)
  have ne: "head_counts ?s0 \<noteq> []" by simp
  have lt: "j ?s0 + 1 < 100" by simp
  have n: "num_coin_toss ?s0 < 2 ^ 53" by simp
  have o: "\<forall>h\<in>set (head_counts ?s0). h \<le> num_coin_toss ?s0 \<and> \<not> overflows (num_coin_toss ?s0) h"
    by (simp add: not_overflows_small)
  have pa: "pA_heads ?s0 ! j ?s0 = Fin (1/2)" and pb: "pB_heads ?s0 ! j ?s0 = Fin (1/2)" by simp_all
  have wA: "weightA ?m ?s0 0 = Fin (1/2)" "weightA ?m ?s0 (Suc 0) = Fin (1/2)"
    by (simp_all add: weightA_def lA_of_def lB_of_def lik_value_half fl_exact_small)
  have wB: "weightB ?m ?s0 0 = Fin (1/2)" "weightB ?m ?s0 (Suc 0) = Fin (1/2)"
    by (simp_all add: weightB_def lA_of_def lB_of_def lik_value_half fl_exact_small)
  have up: "[0..<2] = [0, Suc 0]" by (simp add: upt_rec)
  have hA: "expHeads_A ?m ?s0 = Fin (11/2)"
    by (simp add: expHeads_A_def fp_sum_def up wA fl_exact_small)
  have tA: "expTails_A ?m ?s0 = Fin (9/2)"
    by (simp add: expTails_A_def fp_sum_def up wA fl_exact_small)
  have hB: "expHeads_B ?m ?s0 = Fin (11/2)"
    by (simp add: expHeads_B_def fp_sum_def up wB fl_exact_small)
  have tB: "expTails_B ?m ?s0 = Fin (9/2)"
    by (simp add: expTails_B_def fp_sum_def up wB fl_exact_small)
  have dA: "fp_add ?m (expHeads_A ?m ?s0) (expTails_A ?m ?s0) = Fin 10"
    by (simp add: hA tA fl_exact_small)
  have dB: "fp_add ?m (expHeads_B ?m ?s0) (expTails_B ?m ?s0) = Fin 10"
    by (simp add: hB tB fl_exact_small)
  from m_step_unit_interval [OF sound_exact_machine w lt ne n o pa _ _ pb]
  obtain s' where b: "em_body ?m ?s0 = Inr s'"
    and UA: "pA_heads s' ! (j ?s0 + 1) = NaN
          \<or> (\<exists>a'. pA_heads s' ! (j ?s0 + 1) = Fin a' \<and> 0 \<le> a' \<and> a' \<le> 1)"
    and UB: "pB_heads s' ! (j ?s0 + 1) = NaN
          \<or> (\<exists>b'. pB_heads s' ! (j ?s0 + 1) = Fin b' \<and> 0 \<le> b' \<and> b' \<le> 1)"
    and A: "\<forall>d. fp_add ?m (expHeads_A ?m ?s0) (expTails_A ?m ?s0) = Fin d
            \<longrightarrow> (pA_heads s' ! (j ?s0 + 1) = NaN \<longleftrightarrow> d = 0)"
    and B: "\<forall>d. fp_add ?m (expHeads_B ?m ?s0) (expTails_B ?m ?s0) = Fin d
            \<longrightarrow> (pB_heads s' ! (j ?s0 + 1) = NaN \<longleftrightarrow> d = 0)"
    by auto
  from A dA have "pA_heads s' ! (j ?s0 + 1) \<noteq> NaN" by simp
  with UA obtain a' where "pA_heads s' ! 1 = Fin a'" "0 \<le> a'" "a' \<le> 1" by auto
  moreover from B dB have "pB_heads s' ! (j ?s0 + 1) \<noteq> NaN" by simp
  with UB obtain b' where "pB_heads s' ! 1 = Fin b'" "0 \<le> b'" "b' \<le> 1" by auto
  ultimately show ?thesis using sound_exact_machine dA dB b by auto
qed

text \<open>
  Claim C9 fails as stated: from the biases \<open>(0, 1/2)\<close> and 5 heads in 10 tosses, coin A
  has likelihood 0 and weight 0, so its expected heads and tails are both 0 and its new
  bias is \<open>0/0 = nan\<close>. And on a machine with underflow, from the biases
  \<open>(1/16, 1/16)\<close> and 300 heads in 300 tosses, both likelihoods underflow to 0 and both
  new biases are \<open>nan\<close>.
\<close>

theorem m_step_unit_interval_counterexample:
  "\<not> isl (em_body exact_machine (em_init [5] 10 (Fin 0) (Fin (1/2)) (Fin (1/1000))))
   \<and> pA_heads (em_init [5] 10 (Fin 0) (Fin (1/2)) (Fin (1/1000))) ! 0 = Fin 0
   \<and> pB_heads (em_init [5] 10 (Fin 0) (Fin (1/2)) (Fin (1/1000))) ! 0 = Fin (1/2)
   \<and> pA_heads (projr (em_body exact_machine (em_init [5] 10 (Fin 0) (Fin (1/2)) (Fin (1/1000))))) ! 1 = NaN
   \<and> pB_heads (projr (em_body exact_machine (em_init [5] 10 (Fin 0) (Fin (1/2)) (Fin (1/1000))))) ! 1
       = Fin (1/2)
   \<and> \<not> isl (RunEM underflow_machine [300] 300 (Fin (1/16)) (Fin (1/16)) (Fin (1/1000)))
   \<and> pA_heads (projr (RunEM underflow_machine [300] 300 (Fin (1/16)) (Fin (1/16)) (Fin (1/1000)))) ! 1
       = NaN
   \<and> pB_heads (projr (RunEM underflow_machine [300] 300 (Fin (1/16)) (Fin (1/16)) (Fin (1/1000)))) ! 1
       = NaN"
proof -
  let ?m = exact_machine
  let ?s0 = "em_init [5] 10 (Fin 0) (Fin (1/2)) (Fin (1/1000))"
  have w0: "wf_state ?s0" by (rule wf_em_init)
  have h0: "head_counts ?s0 \<noteq> []" by simp
  have lt: "j ?s0 + 1 < 100" by simp
  have o: "\<forall>h\<in>set (head_counts ?s0). \<not> overflows (num_coin_toss ?s0) h"
    by (simp add: not_overflows_small)
  have rA: "rowsA ?m ?s0 = [(Fin 0, Fin 0)]"
    by (simp add: rowsA_def rowA_def weightA_def lA_of_def lB_of_def lik_value_half lik_value_p0
        scale_row_def fl_exact_small)
  have rB: "rowsB ?m ?s0 = [(Fin 5, Fin 5)]"
    by (simp add: rowsB_def rowB_def weightB_def lA_of_def lB_of_def lik_value_half lik_value_p0
        scale_row_def fl_exact_small)
  have mA: "m_step ?m (rowsA ?m ?s0) = NaN"
    by (simp add: rA m_step_def py_sum_rows_def py_sum_row_def row_add_def zero_row_def)
  have mB: "m_step ?m (rowsB ?m ?s0) = Fin (1/2)"
    by (simp add: rB m_step_def py_sum_rows_def py_sum_row_def row_add_def zero_row_def fl_exact_small)
  from em_body_wf [OF w0 h0 lt o, of ?m] obtain s1 where
    b: "em_body ?m ?s0 = Inr s1"
    and pA: "pA_heads s1 = (pA_heads ?s0)[j ?s0 + 1 := m_step ?m (rowsA ?m ?s0)]"
    and pB: "pB_heads s1 = (pB_heads ?s0)[j ?s0 + 1 := m_step ?m (rowsB ?m ?s0)]" by blast
  have 1: "pA_heads s1 ! Suc 0 = NaN" "pB_heads s1 ! Suc 0 = Fin (1/2)"
    by (simp_all add: pA pB mA mB)
  from nan_run [OF compute_likelihood_300_underflow compute_likelihood_300_underflow]
  obtain s2 where
    "RunEM underflow_machine [300] 300 (Fin (1/16)) (Fin (1/16)) (Fin (1/1000)) = Inr s2"
    "pA_heads s2 ! 1 = NaN" "pB_heads s2 ! 1 = NaN"
    using not_overflows_small [of 300 300] by auto
  then show ?thesis using 1 by (simp add: b)
qed

subsection \<open>The update in exact arithmetic\<close>

text \<open>
  Over the reals one pass from good biases does not decrease the observed-data
  log-likelihood and leads to good biases again (\<open>em_monotone_good\<close>): the classical
  monotonicity of E-M, from the concavity of the logarithm. The floats of the loop do not
  inherit it. With rounding left open nothing relates the log-likelihood at two
  consecutive points of a trace, and a power that underflows to 0 can make both
  likelihoods of an experiment 0 from biases strictly between 0 and 1, after which the
  pass yields \<open>nan\<close>.
\<close>

lemma lik_nonneg: "0 \<le> p \<Longrightarrow> p \<le> 1 \<Longrightarrow> 0 \<le> lik h n p"
  by (simp add: lik_def)

lemma resp_bounds:
  assumes "0 \<le> lik h n a" and "0 \<le> lik h n b" and "lik h n a + lik h n b \<noteq> 0"
  shows "0 \<le> resp n a b h" and "resp n a b h \<le> 1"
  using assms by (simp_all add: resp_def divide_le_eq_1)

lemma member_le_sum_list_real:
  fixes xs :: "real list"
  assumes "\<forall>x\<in>set xs. 0 \<le> x" and "y \<in> set xs"
  shows "y \<le> sum_list xs"
  using assms
proof (induction xs)
  case Nil
  then show ?case by simp
next
  case (Cons x xs)
  have nn: "0 \<le> sum_list xs" using Cons.prems(1) by (simp add: sum_list_nonneg)
  show ?case
  proof (cases "y = x")
    case True
    then show ?thesis using nn by simp
  next
    case False
    then have "y \<le> sum_list xs" using Cons by simp
    moreover have "0 \<le> x" using Cons.prems(1) by simp
    ultimately show ?thesis by simp
  qed
qed

lemma exp_heads_tails_sum:
  "exp_heads hs n a b + exp_tails hs n a b = real n * (\<Sum>h\<leftarrow>hs. resp n a b h)"
proof -
  have "exp_heads hs n a b + exp_tails hs n a b = (\<Sum>h\<leftarrow>hs. resp n a b h * real h + resp n a b h * (real n - real h))"
    by (simp add: exp_heads_def exp_tails_def sum_list_addf)
  also have "\<dots> = (\<Sum>h\<leftarrow>hs. real n * resp n a b h)"
    by (rule arg_cong [where f = sum_list], rule map_cong [OF refl]) (simp add: algebra_simps)
  also have "\<dots> = real n * (\<Sum>h\<leftarrow>hs. resp n a b h)"
    by (simp add: sum_list_const_mult)
  finally show ?thesis .
qed

lemma em_update_unit:
  assumes "counts_ok hs n" and "\<forall>h\<in>set hs. 0 \<le> resp n a b h" and "\<exists>h\<in>set hs. 0 < resp n a b h"
  shows "0 < exp_heads hs n a b + exp_tails hs n a b"
    and "0 \<le> exp_heads hs n a b" and "0 \<le> exp_tails hs n a b"
    and "0 \<le> em_update hs n a b" and "em_update hs n a b \<le> 1"
proof -
  from assms(3) obtain h0 where h0: "h0 \<in> set hs" "0 < resp n a b h0" by blast
  have "resp n a b h0 \<le> (\<Sum>h\<leftarrow>hs. resp n a b h)"
    by (rule member_le_sum_list_real) (use assms(2) h0 in auto)
  then have "0 < (\<Sum>h\<leftarrow>hs. resp n a b h)" using h0(2) by linarith
  moreover have "0 < real n" using assms(1) by (simp add: counts_ok_def)
  ultimately show pos: "0 < exp_heads hs n a b + exp_tails hs n a b"
    by (simp add: exp_heads_tails_sum)
  show H: "0 \<le> exp_heads hs n a b"
    unfolding exp_heads_def by (rule sum_list_nonneg) (use assms(2) in auto)
  show T: "0 \<le> exp_tails hs n a b"
    unfolding exp_tails_def
    by (rule sum_list_nonneg) (use assms(1,2) in \<open>auto simp: counts_ok_def\<close>)
  show "0 \<le> em_update hs n a b" using H pos by (simp add: em_update_def)
  show "em_update hs n a b \<le> 1" using H T pos by (simp add: em_update_def divide_le_eq_1)
qed

lemma lik_pos: "h \<le> n \<Longrightarrow> 0 < p \<Longrightarrow> p < 1 \<Longrightarrow> 0 < lik h n p"
  by (simp add: lik_def)

lemma lik_zero_heads: "lik 0 n 0 = 1"
  by (simp add: lik_def)

lemma lik_all_heads: "lik n n 1 = 1"
  by (simp add: lik_def)

lemma lik_pos_heads: "0 < lik h n p \<Longrightarrow> 0 < h \<Longrightarrow> p \<noteq> 0"
  by (auto simp: lik_def power_0_left)

lemma lik_pos_tails: "0 < lik h n p \<Longrightarrow> h < n \<Longrightarrow> p \<noteq> 1"
  by (auto simp: lik_def power_0_left)

lemma ln_concave2:
  fixes w v x y :: real
  assumes "0 \<le> w" and "0 \<le> v" and "w + v = 1" and "0 < x" and "0 < y"
  shows "w * ln x + v * ln y \<le> ln (w * x + v * y)"
proof -
  define m where "m = w * x + v * y"
  have m: "0 < m"
  proof (cases "w = 0")
    case True
    then have "v = 1" using assms(3) by simp
    then show ?thesis using True assms(5) by (simp add: m_def)
  next
    case False
    then have "0 < w * x" using assms(1,4) by simp
    moreover have "0 \<le> v * y" using assms(2,5) by simp
    ultimately show ?thesis unfolding m_def by linarith
  qed
  have 1: "ln x - ln m \<le> x / m - 1"
    using ln_le_minus_one [of "x / m"] assms(4) m by (simp add: ln_divide_pos)
  have 2: "ln y - ln m \<le> y / m - 1"
    using ln_le_minus_one [of "y / m"] assms(5) m by (simp add: ln_divide_pos)
  have "w * (ln x - ln m) + v * (ln y - ln m) \<le> w * (x / m - 1) + v * (y / m - 1)"
    using mult_left_mono [OF 1 assms(1)] mult_left_mono [OF 2 assms(2)] by linarith
  also have "\<dots> = (w * x + v * y) / m - (w + v)"
    by (simp add: algebra_simps add_divide_distrib)
  also have "\<dots> = 0" using m assms(3) by (simp add: m_def)
  finally have "w * ln x + v * ln y \<le> (w + v) * ln m"
    by (simp add: algebra_simps)
  then show ?thesis using assms(3) by (simp add: m_def)
qed

lemma gibbs2:
  fixes a c :: real
  assumes "0 < a" and "a < 1" and "0 < c" and "c < 1"
  shows "0 \<le> c * (ln c - ln a) + (1 - c) * (ln (1 - c) - ln (1 - a))"
proof -
  have 1: "ln a - ln c \<le> a / c - 1"
    using ln_le_minus_one [of "a / c"] assms by (simp add: ln_divide_pos)
  have 2: "ln (1 - a) - ln (1 - c) \<le> (1 - a) / (1 - c) - 1"
    using ln_le_minus_one [of "(1 - a) / (1 - c)"] assms by (simp add: ln_divide_pos)
  have c1: "c * (ln a - ln c) \<le> c * (a / c - 1)"
    using mult_left_mono [OF 1, of c] assms(3) by simp
  have c2: "(1 - c) * (ln (1 - a) - ln (1 - c)) \<le> (1 - c) * ((1 - a) / (1 - c) - 1)"
    using mult_left_mono [OF 2, of "1 - c"] assms(4) by simp
  have e1: "c * (a / c - 1) = a - c" using assms(3) by (simp add: algebra_simps)
  have "(1 - c) * ((1 - a) / (1 - c)) = 1 - a" using assms(4) by simp
  then have e2: "(1 - c) * ((1 - a) / (1 - c) - 1) = c - a"
    by (simp add: right_diff_distrib)
  have "c * (ln a - ln c) + (1 - c) * (ln (1 - a) - ln (1 - c)) \<le> 0"
    using c1 c2 unfolding e1 e2 by linarith
  then show ?thesis by (simp add: algebra_simps)
qed

lemma ln_lik:
  assumes "h \<le> n" and "0 < p" and "p < 1"
  shows "ln (lik h n p) = ln (real (n choose h)) + real h * ln p + real (n - h) * ln (1 - p)"
proof -
  have c: "0 < real (n choose h)" using assms(1) by simp
  have "ln (lik h n p) = ln (real (n choose h) * p ^ h) + ln ((1 - p) ^ (n - h))"
    unfolding lik_def using c assms by (subst ln_mult_pos) simp_all
  also have "ln (real (n choose h) * p ^ h) = ln (real (n choose h)) + ln (p ^ h)"
    using c assms by (subst ln_mult_pos) simp_all
  finally show ?thesis by (simp add: ln_realpow)
qed

lemma ln_lik_diff:
  assumes "h \<le> n" and "0 < p" and "p < 1" and "0 < q" and "q < 1"
  shows "ln (lik h n q) - ln (lik h n p) =
           real h * (ln q - ln p) + (real n - real h) * (ln (1 - q) - ln (1 - p))"
proof -
  have "real (n - h) = real n - real h" using assms(1) by simp
  then show ?thesis
    by (simp add: ln_lik [OF assms(1,2,3)] ln_lik [OF assms(1,4,5)] algebra_simps)
qed

lemma mixture_step:
  fixes x y x' y' :: real
  assumes "0 < x" and "0 < y" and "0 < x'" and "0 < y'"
  shows "x / (x + y) * (ln x' - ln x) + y / (x + y) * (ln y' - ln y)
           \<le> ln (x' / 2 + y' / 2) - ln (x / 2 + y / 2)"
proof -
  let ?w = "x / (x + y)" and ?v = "y / (x + y)"
  have s: "0 < x + y" using assms by simp
  have wv: "0 \<le> ?w" "0 \<le> ?v" "?w + ?v = 1"
    using assms s by (simp_all add: add_divide_distrib [symmetric])
  have r: "0 < x' / x" "0 < y' / y" using assms by simp_all
  have "?w * ln (x' / x) + ?v * ln (y' / y) \<le> ln (?w * (x' / x) + ?v * (y' / y))"
    by (rule ln_concave2 [OF wv r])
  also have "?w * (x' / x) + ?v * (y' / y) = (x' + y') / (x + y)"
  proof -
    have "?w * (x' / x) = x' / (x + y)" using assms(1) by simp
    moreover have "?v * (y' / y) = y' / (x + y)" using assms(2) by simp
    ultimately show ?thesis by (simp add: add_divide_distrib)
  qed
  also have "ln ((x' + y') / (x + y)) = ln (x' + y') - ln (x + y)"
    using assms s by (simp add: ln_divide_pos)
  also have "\<dots> = ln (x' / 2 + y' / 2) - ln (x / 2 + y / 2)"
  proof -
    have "ln (x' / 2 + y' / 2) = ln (x' + y') - ln 2"
      using assms by (simp add: add_divide_distrib [symmetric] ln_divide_pos)
    moreover have "ln (x / 2 + y / 2) = ln (x + y) - ln 2"
      using assms by (simp add: add_divide_distrib [symmetric] ln_divide_pos)
    ultimately show ?thesis by simp
  qed
  finally show ?thesis using assms by (simp add: ln_divide_pos)
qed

lemma weighted_sum_split:
  fixes r :: "nat \<Rightarrow> real"
  shows "(\<Sum>h\<leftarrow>hs. r h * (real h * A + (real n - real h) * B))
       = A * (\<Sum>h\<leftarrow>hs. r h * real h) + B * (\<Sum>h\<leftarrow>hs. r h * (real n - real h))"
  by (induction hs) (simp_all add: algebra_simps)

lemma update_gain_nonneg:
  fixes H T :: real
  assumes "0 < H" and "0 < T" and "0 < a" and "a < 1"
  shows "0 \<le> (ln (H / (H + T)) - ln a) * H + (ln (1 - H / (H + T)) - ln (1 - a)) * T"
proof -
  define c where "c = H / (H + T)"
  have S: "0 < H + T" using assms by simp
  have c: "0 < c" "c < 1" using assms S by (simp_all add: c_def)
  have H: "H = (H + T) * c" using S by (simp add: c_def)
  have T: "T = (H + T) * (1 - c)"
  proof -
    have "1 - c = T / (H + T)" using S by (simp add: c_def field_simps)
    then show ?thesis using S by simp
  qed
  have "0 \<le> (H + T) * (c * (ln c - ln a) + (1 - c) * (ln (1 - c) - ln (1 - a)))"
    using gibbs2 [OF assms(3,4) c] S by simp
  also have "\<dots> = (ln c - ln a) * ((H + T) * c) + (ln (1 - c) - ln (1 - a)) * ((H + T) * (1 - c))"
    by (simp add: algebra_simps)
  also have "\<dots> = (ln c - ln a) * H + (ln (1 - c) - ln (1 - a)) * T"
    using H T by simp
  finally show ?thesis by (simp add: c_def)
qed

lemma em_monotone_interior:
  assumes "counts_ok hs n" and "0 < a" and "a < 1" and "0 < b" and "b < 1"
    and "0 < exp_heads hs n a b" and "0 < exp_tails hs n a b"
    and "0 < exp_heads hs n b a" and "0 < exp_tails hs n b a"
  shows "ll hs n a b \<le> ll hs n (em_update hs n a b) (em_update hs n b a)"
proof -
  let ?a' = "em_update hs n a b" and ?b' = "em_update hs n b a"
  have a': "0 < ?a'" "?a' < 1" using assms(6,7) by (simp_all add: em_update_def)
  have b': "0 < ?b'" "?b' < 1" using assms(8,9) by (simp_all add: em_update_def)
  define A1 where "A1 = ln ?a' - ln a"
  define A2 where "A2 = ln (1 - ?a') - ln (1 - a)"
  define B1 where "B1 = ln ?b' - ln b"
  define B2 where "B2 = ln (1 - ?b') - ln (1 - b)"
  let ?f = "\<lambda>h. resp n a b h * (real h * A1 + (real n - real h) * A2)
               + resp n b a h * (real h * B1 + (real n - real h) * B2)"
  let ?g = "\<lambda>h. ln (lik h n ?a' / 2 + lik h n ?b' / 2) - ln (lik h n a / 2 + lik h n b / 2)"
  have le: "\<forall>h\<in>set hs. h \<le> n" using assms(1) by (simp add: counts_ok_def)
  have step: "?f h \<le> ?g h" if "h \<in> set hs" for h
  proof -
    have hn: "h \<le> n" using le that by simp
    have p: "0 < lik h n a" "0 < lik h n b" "0 < lik h n ?a'" "0 < lik h n ?b'"
      using hn assms(2-5) a' b' by (simp_all add: lik_pos)
    have dA: "ln (lik h n ?a') - ln (lik h n a) = real h * A1 + (real n - real h) * A2"
      unfolding A1_def A2_def by (rule ln_lik_diff [OF hn assms(2,3) a'])
    have dB: "ln (lik h n ?b') - ln (lik h n b) = real h * B1 + (real n - real h) * B2"
      unfolding B1_def B2_def by (rule ln_lik_diff [OF hn assms(4,5) b'])
    from mixture_step [OF p] show ?thesis
      unfolding dA dB by (simp add: resp_def add.commute [of "lik h n b" "lik h n a"])
  qed
  have "(\<Sum>h\<leftarrow>hs. ?f h) \<le> (\<Sum>h\<leftarrow>hs. ?g h)"
    by (rule sum_list_mono) (use step in blast)
  moreover have "(\<Sum>h\<leftarrow>hs. ?g h) = ll hs n ?a' ?b' - ll hs n a b"
    by (simp add: ll_def sum_list_subtractf)
  moreover have "(\<Sum>h\<leftarrow>hs. ?f h) =
      (A1 * exp_heads hs n a b + A2 * exp_tails hs n a b)
      + (B1 * exp_heads hs n b a + B2 * exp_tails hs n b a)"
    by (simp add: sum_list_addf weighted_sum_split exp_heads_def exp_tails_def)
  moreover have "0 \<le> A1 * exp_heads hs n a b + A2 * exp_tails hs n a b"
  proof -
    have "1 - ?a' = 1 - exp_heads hs n a b / (exp_heads hs n a b + exp_tails hs n a b)"
      by (simp add: em_update_def)
    then show ?thesis
      using update_gain_nonneg [OF assms(6,7,2,3)]
      by (simp add: A1_def A2_def em_update_def)
  qed
  moreover have "0 \<le> B1 * exp_heads hs n b a + B2 * exp_tails hs n b a"
    using update_gain_nonneg [OF assms(8,9,4,5)]
    by (simp add: B1_def B2_def em_update_def)
  ultimately show ?thesis by linarith
qed

lemma good_resp_pos:
  assumes "good hs n a b" and "h \<in> set hs"
  shows "0 < resp n a b h" and "0 < resp n b a h"
  using assms by (simp_all add: good_def resp_def add_pos_pos)

lemma sum_list_pos_member:
  fixes f :: "nat \<Rightarrow> real"
  assumes "\<forall>h\<in>set hs. 0 \<le> f h" and "h0 \<in> set hs" and "0 < f h0"
  shows "0 < (\<Sum>h\<leftarrow>hs. f h)"
proof -
  have "f h0 \<le> sum_list (map f hs)"
    by (rule member_le_sum_list_real) (use assms in auto)
  then show ?thesis using assms(3) by linarith
qed

lemma sum_list_all_zero:
  fixes f :: "nat \<Rightarrow> real"
  shows "\<forall>h\<in>set hs. f h = 0 \<Longrightarrow> (\<Sum>h\<leftarrow>hs. f h) = 0"
  by (induction hs) simp_all

lemma ll_nonpos:
  assumes "\<forall>h\<in>set hs. 0 < lik h n a \<and> lik h n a \<le> 1 \<and> 0 < lik h n b \<and> lik h n b \<le> 1"
  shows "ll hs n a b \<le> 0"
  unfolding ll_def
proof (rule sum_list_nonpos)
  fix x assume "x \<in> set (map (\<lambda>h. ln (lik h n a / 2 + lik h n b / 2)) hs)"
  then obtain h where h: "h \<in> set hs" "x = ln (lik h n a / 2 + lik h n b / 2)" by auto
  have "0 < lik h n a / 2 + lik h n b / 2" "lik h n a / 2 + lik h n b / 2 \<le> 1"
    using assms h(1) by (auto intro: add_pos_pos)
  then show "x \<le> 0" by (simp add: h(2))
qed

lemma ll_all_one:
  assumes "\<forall>h\<in>set hs. lik h n a = 1 \<and> lik h n b = 1"
  shows "ll hs n a b = 0"
  unfolding ll_def by (rule sum_list_all_zero) (simp add: assms)

lemma lik_le_one_no_heads: "0 \<le> p \<Longrightarrow> p \<le> 1 \<Longrightarrow> lik 0 n p \<le> 1"
  by (simp add: lik_def power_le_one)

lemma lik_le_one_all_heads: "0 \<le> p \<Longrightarrow> p \<le> 1 \<Longrightarrow> lik n n p \<le> 1"
  by (simp add: lik_def power_le_one)

lemma em_monotone_good:
  assumes "counts_ok hs n" and "good hs n a b"
  shows "good hs n (em_update hs n a b) (em_update hs n b a)"
    and "ll hs n a b \<le> ll hs n (em_update hs n a b) (em_update hs n b a)"
    and "exp_heads hs n a b + exp_tails hs n a b \<noteq> 0"
    and "exp_heads hs n b a + exp_tails hs n b a \<noteq> 0"
proof -
  let ?a' = "em_update hs n a b" and ?b' = "em_update hs n b a"
  have ne: "hs \<noteq> []" and n: "0 < n" and le: "\<forall>h\<in>set hs. h \<le> n"
    using assms(1) by (simp_all add: counts_ok_def)
  have ab: "0 \<le> a" "a \<le> 1" "0 \<le> b" "b \<le> 1"
    and lp: "\<forall>h\<in>set hs. 0 < lik h n a \<and> 0 < lik h n b"
    using assms(2) by (simp_all add: good_def)
  have rA: "\<forall>h\<in>set hs. 0 \<le> resp n a b h" and rB: "\<forall>h\<in>set hs. 0 \<le> resp n b a h"
    using good_resp_pos [OF assms(2)] by (auto intro: less_imp_le)
  obtain h0 where h0: "h0 \<in> set hs" using ne by (cases hs) auto
  have pA: "\<exists>h\<in>set hs. 0 < resp n a b h" and pB: "\<exists>h\<in>set hs. 0 < resp n b a h"
    using good_resp_pos [OF assms(2) h0] h0 by blast+
  note uA = em_update_unit [OF assms(1) rA pA]
  note uB = em_update_unit [OF assms(1) rB pB]
  show "exp_heads hs n a b + exp_tails hs n a b \<noteq> 0" using uA(1) by simp
  show "exp_heads hs n b a + exp_tails hs n b a \<noteq> 0" using uB(1) by simp
  have main: "good hs n ?a' ?b' \<and> ll hs n a b \<le> ll hs n ?a' ?b'"
  proof (cases "\<forall>h\<in>set hs. h = 0")
    case True
    have "exp_heads hs n a b = 0" "exp_heads hs n b a = 0"
      unfolding exp_heads_def using True by (simp_all add: sum_list_all_zero)
    then have z: "?a' = 0" "?b' = 0" by (simp_all add: em_update_def)
    have one: "\<forall>h\<in>set hs. lik h n ?a' = 1 \<and> lik h n ?b' = 1"
      using True by (auto simp: z lik_zero_heads)
    have g: "good hs n ?a' ?b'" using one by (simp add: good_def z)
    have "ll hs n a b \<le> 0"
      by (rule ll_nonpos) (use True lp ab in \<open>auto simp: lik_le_one_no_heads\<close>)
    then show ?thesis using g ll_all_one [OF one] by simp
  next
    case nz: False
    show ?thesis
    proof (cases "\<forall>h\<in>set hs. h = n")
      case True
      have "exp_tails hs n a b = 0" "exp_tails hs n b a = 0"
        unfolding exp_tails_def using True by (simp_all add: sum_list_all_zero)
      then have z: "?a' = 1" "?b' = 1" using uA(1) uB(1) by (simp_all add: em_update_def)
      have one: "\<forall>h\<in>set hs. lik h n ?a' = 1 \<and> lik h n ?b' = 1"
        using True by (auto simp: z lik_all_heads)
      have g: "good hs n ?a' ?b'" using one by (simp add: good_def z)
      have "ll hs n a b \<le> 0"
        by (rule ll_nonpos) (use True lp ab in \<open>auto simp: lik_le_one_all_heads\<close>)
      then show ?thesis using g ll_all_one [OF one] by simp
    next
      case False
      from nz obtain h1 where h1: "h1 \<in> set hs" "0 < h1" by auto
      from False le obtain h2 where h2: "h2 \<in> set hs" "h2 < n" by (metis le_neq_implies_less)
      have a: "0 < a" "a < 1"
        using lik_pos_heads [of h1 n a] lik_pos_tails [of h2 n a] lp h1 h2 ab by force+
      have b: "0 < b" "b < 1"
        using lik_pos_heads [of h1 n b] lik_pos_tails [of h2 n b] lp h1 h2 ab by force+
      have t: "0 \<le> real n - real h" if "h \<in> set hs" for h using le that by simp
      have HA: "0 < exp_heads hs n a b"
        unfolding exp_heads_def
        by (rule sum_list_pos_member [OF _ h1(1)])
           (use rA good_resp_pos(1) [OF assms(2) h1(1)] h1(2) in auto)
      have TA: "0 < exp_tails hs n a b"
        unfolding exp_tails_def
        by (rule sum_list_pos_member [OF _ h2(1)])
           (use rA t good_resp_pos(1) [OF assms(2) h2(1)] h2(2) in auto)
      have HB: "0 < exp_heads hs n b a"
        unfolding exp_heads_def
        by (rule sum_list_pos_member [OF _ h1(1)])
           (use rB good_resp_pos(2) [OF assms(2) h1(1)] h1(2) in auto)
      have TB: "0 < exp_tails hs n b a"
        unfolding exp_tails_def
        by (rule sum_list_pos_member [OF _ h2(1)])
           (use rB t good_resp_pos(2) [OF assms(2) h2(1)] h2(2) in auto)
      have a': "0 < ?a'" "?a' < 1" using HA TA by (simp_all add: em_update_def)
      have b': "0 < ?b'" "?b' < 1" using HB TB by (simp_all add: em_update_def)
      have g: "good hs n ?a' ?b'"
        using a' b' le by (simp add: good_def lik_pos)
      from em_monotone_interior [OF assms(1) a b HA TA HB TB] g show ?thesis by simp
    qed
  qed
  then show "good hs n ?a' ?b'" and "ll hs n a b \<le> ll hs n ?a' ?b'" by simp_all
qed


end
